theory Spec2Isabelle
  imports Main "HOL-Library.Sublist" "HOL-Library.Multiset" "HOL-Library.Char_ord"
    "HOL-Library.List_Lexorder"
begin

section \<open>Python values used by lshca\<close>

text \<open>
  The exceptions the modelled code can raise. \<open>PyException\<close> is the bare
  \<^verbatim>\<open>Exception\<close> raised by \<^verbatim>\<open>HCAManager.__init__\<close>; \<open>ReError\<close> is the error of
  \<^verbatim>\<open>re.compile\<close> on a malformed pattern.
\<close>

datatype error = ValueError | PyException | IndexError | TypeError | KeyError | ReError

text \<open>Python's \<^verbatim>\<open>str\<close> on a non-negative integer: its decimal digits.\<close>

definition digit_char :: "nat \<Rightarrow> char" where
  "digit_char n = char_of (48 + n)"

function str_nat :: "nat \<Rightarrow> string" where
  "str_nat n = (if n < 10 then [digit_char n] else str_nat (n div 10) @ [digit_char (n mod 10)])"
  by pat_completeness auto
termination
  by (relation "measure (\<lambda>n. n)") auto

declare str_nat.simps [simp del]

text \<open>\<^verbatim>\<open>list.insert(i, x)\<close> for \<open>0 \<le> i\<close>: an index beyond the end appends.\<close>

definition list_insert :: "nat \<Rightarrow> 'a \<Rightarrow> 'a list \<Rightarrow> 'a list" where
  "list_insert i x xs = take i xs @ x # drop i xs"

section \<open>Configuration\<close>

text \<open>
  Lists are mutable objects that the code shares by reference, so every list
  the configuration refers to lives in a store and the configuration holds its
  address. \<^verbatim>\<open>output_order_general\<close> is a dictionary from the view name to
  such a list.
\<close>

type_synonym addr = nat
type_synonym store = "addr \<Rightarrow> string list"

record Config =
  output_view :: string
  output_order_general :: "string \<Rightarrow> addr option"
  output_order :: addr
  show_warnings_and_errors :: bool
  warning_sign :: string
  error_sign :: string
  output_format :: string
  output_separator_char :: string
  output_fields_filter_positive :: addr
  output_fields_filter_negative :: "string list"
  where_output_filter :: "string list"

section \<open>Device records\<close>

text \<open>
  \<^verbatim>\<open>MlnxBFDDevice\<close>: one record per bus address and port. The fields are
  the attributes the object holds once its constructor has queried the data
  sources; \<open>sysfs_sriov\<close> is \<^verbatim>\<open>sysFSDevice.sriov\<close> and \<open>roce_status\<close> the value
  of the property of that name. \<open>operstate\<close> is \<^verbatim>\<open>None\<close> outside the RoCE view.
\<close>

record MlnxBFDDevice =
  bdf :: string
  port :: string
  sysfs_sriov :: string
  vfParent :: string
  sn :: string
  pn :: string
  fw :: string
  description :: string
  tempr :: string
  numa :: string
  rdma :: string
  net :: string
  hca_type :: string
  state :: string
  port_rate :: string
  link_layer :: string
  mst_device :: string
  lnkCapWidth :: string
  lnkStaWidth :: string
  plid :: string
  pguid :: string
  ib_net_prefix :: string
  sm_guid :: string
  sw_guid :: string
  sw_description :: string
  virt_hca :: string
  operstate :: "string option"
  roce_status :: string

text \<open>
  \<^verbatim>\<open>re.match(r".*[Vv]irtual [Ff]unction.*", description)\<close>: the text occurs
  somewhere in the description, with no line break before it (\<^verbatim>\<open>.\<close> does not
  match a newline).
\<close>

definition starts_virtual_function :: "string \<Rightarrow> bool" where
  "starts_virtual_function s =
     (prefix ''Virtual Function'' s \<or> prefix ''Virtual function'' s \<or>
      prefix ''virtual Function'' s \<or> prefix ''virtual function'' s)"

fun virtual_function_desc :: "string \<Rightarrow> bool" where
  "virtual_function_desc [] = False"
| "virtual_function_desc (c # cs) =
     (starts_virtual_function (c # cs) \<or> (c \<noteq> CHR 0x0A \<and> virtual_function_desc cs))"

text \<open>The property \<^verbatim>\<open>MlnxBFDDevice.sriov\<close>.\<close>

definition sriov :: "Config \<Rightarrow> MlnxBFDDevice \<Rightarrow> string" where
  "sriov cfg d =
     (if show_warnings_and_errors cfg \<and> sysfs_sriov d = ''PF'' \<and>
         virtual_function_desc (description d)
      then sysfs_sriov d @ warning_sign cfg
      else sysfs_sriov d)"

text \<open>The test \<^verbatim>\<open>bdf_dev.sriov in ("PF", "PF*")\<close>.\<close>

definition is_pf :: "Config \<Rightarrow> MlnxBFDDevice \<Rightarrow> bool" where
  "is_pf cfg d = (sriov cfg d = ''PF'' \<or> sriov cfg d = ''PF*'')"

text \<open>The test \<^verbatim>\<open>bdf_dev.sriov == 'VF'\<close>.\<close>

definition is_vf :: "Config \<Rightarrow> MlnxBFDDevice \<Rightarrow> bool" where
  "is_vf cfg d = (sriov cfg d = ''VF'')"

section \<open>Adapter records\<close>

text \<open>
  \<^verbatim>\<open>MlnxHCA\<close>. Its attributes \<^verbatim>\<open>sn\<close>, \<^verbatim>\<open>pn\<close>, \<^verbatim>\<open>fw\<close>, \<^verbatim>\<open>description\<close>,
  \<^verbatim>\<open>tempr\<close> and \<^verbatim>\<open>_hca_index\<close> carry the prefix \<open>hca_\<close> here, since the
  device record has fields of the same names.
\<close>

record MlnxHCA =
  bfd_devices :: "MlnxBFDDevice list"
  hca_sn :: string
  hca_pn :: string
  hca_fw :: string
  hca_description :: string
  hca_tempr :: string
  hca_index_raw :: "nat option"

text \<open>\<^verbatim>\<open>MlnxHCA.__init__\<close>: only a PF founds an adapter record.\<close>

definition MlnxHCA_init :: "Config \<Rightarrow> MlnxBFDDevice \<Rightarrow> error + MlnxHCA" where
  "MlnxHCA_init cfg bfd_dev =
     (if is_pf cfg bfd_dev
      then Inr \<lparr> bfd_devices = [bfd_dev], hca_sn = sn bfd_dev, hca_pn = pn bfd_dev,
                 hca_fw = fw bfd_dev, hca_description = description bfd_dev,
                 hca_tempr = tempr bfd_dev, hca_index_raw = None \<rparr>
      else Inl ValueError)"

text \<open>The property \<^verbatim>\<open>hca_index\<close>: \<^verbatim>\<open>"#" + str(self._hca_index)\<close>.\<close>

definition hca_index :: "MlnxHCA \<Rightarrow> string" where
  "hca_index h = ''#'' @ (case hca_index_raw h of None \<Rightarrow> ''None'' | Some n \<Rightarrow> str_nat n)"

text \<open>
  The loop of \<^verbatim>\<open>add_bdf_dev\<close> walks the list by index while it inserts into
  it, so the list it walks grows. It need not end: \<open>None\<close> is the run that
  never returns.
\<close>

partial_function (option) insert_after_parent ::
  "MlnxBFDDevice \<Rightarrow> nat \<Rightarrow> MlnxBFDDevice list \<Rightarrow> MlnxBFDDevice list option" where
  "insert_after_parent new_bfd_dev i ds =
     (if i < length ds
      then (if bdf (ds ! i) = vfParent new_bfd_dev
            then insert_after_parent new_bfd_dev (i + 1) (list_insert (i + 1) new_bfd_dev ds)
            else insert_after_parent new_bfd_dev (i + 1) ds)
      else Some ds)"

declare insert_after_parent.simps [code]

definition add_bdf_dev :: "Config \<Rightarrow> MlnxBFDDevice \<Rightarrow> MlnxHCA \<Rightarrow> MlnxHCA option" where
  "add_bdf_dev cfg new_bfd_dev h =
     (if sriov cfg new_bfd_dev = ''VF'' \<and> vfParent new_bfd_dev \<noteq> ''-''
      then map_option (\<lambda>ds. h\<lparr>bfd_devices := ds\<rparr>)
             (insert_after_parent new_bfd_dev 0 (bfd_devices h))
      else Some (h\<lparr>bfd_devices := bfd_devices h @ [new_bfd_dev]\<rparr>))"

section \<open>Topology assembly\<close>

text \<open>
  \<^verbatim>\<open>HCAManager.__init__\<close> from the point where the device records exist.
  The adapter records are objects held in the list \<^verbatim>\<open>self.mlnxHCAs\<close> only, so
  the list of their values is the state. A run yields \<open>None\<close> when it never
  returns, \<open>Some (Inl e)\<close> when it raises \<open>e\<close>, and \<open>Some (Inr hcas)\<close> otherwise.
\<close>

text \<open>
  The inner loop of the first pass: the device joins every adapter record of
  its serial number; the flag is \<^verbatim>\<open>hca_found\<close>.
\<close>

fun add_to_found :: "Config \<Rightarrow> MlnxBFDDevice \<Rightarrow> MlnxHCA list \<Rightarrow> (bool \<times> MlnxHCA list) option" where
  "add_to_found cfg bdf_dev [] = Some (False, [])"
| "add_to_found cfg bdf_dev (h # hs) =
     (if sn bdf_dev = hca_sn h
      then (case add_bdf_dev cfg bdf_dev h of
              None \<Rightarrow> None
            | Some h' \<Rightarrow> (case add_to_found cfg bdf_dev hs of
                           None \<Rightarrow> None
                         | Some (found, hs') \<Rightarrow> Some (True, h' # hs')))
      else (case add_to_found cfg bdf_dev hs of
              None \<Rightarrow> None
            | Some (found, hs') \<Rightarrow> Some (found, h # hs')))"

definition handle_pf :: "Config \<Rightarrow> MlnxHCA list \<Rightarrow> MlnxBFDDevice \<Rightarrow> (error + MlnxHCA list) option" where
  "handle_pf cfg hcas bdf_dev =
     (if is_pf cfg bdf_dev
      then (case add_to_found cfg bdf_dev hcas of
              None \<Rightarrow> None
            | Some (hca_found, hcas') \<Rightarrow>
                if \<not> hca_found
                then (case MlnxHCA_init cfg bdf_dev of
                        Inl e \<Rightarrow> Some (Inl e)
                      | Inr h \<Rightarrow> Some (Inr (hcas' @ [h\<lparr>hca_index_raw := Some (length hcas' + 1)\<rparr>])))
                else Some (Inr hcas'))
      else Some (Inr hcas))"

fun handle_all_pfs :: "Config \<Rightarrow> MlnxBFDDevice list \<Rightarrow> MlnxHCA list \<Rightarrow> (error + MlnxHCA list) option" where
  "handle_all_pfs cfg [] hcas = Some (Inr hcas)"
| "handle_all_pfs cfg (d # ds) hcas =
     (case handle_pf cfg hcas d of
        None \<Rightarrow> None
      | Some (Inl e) \<Rightarrow> Some (Inl e)
      | Some (Inr hcas') \<Rightarrow> handle_all_pfs cfg ds hcas')"

text \<open>
  \<^verbatim>\<open>get_hca_by_sn\<close> returns the first adapter record of the serial number;
  the reference it returns is the position in the list.
\<close>

fun get_hca_by_sn :: "string \<Rightarrow> MlnxHCA list \<Rightarrow> nat option" where
  "get_hca_by_sn s [] = None"
| "get_hca_by_sn s (h # hs) =
     (if s = hca_sn h then Some 0 else map_option Suc (get_hca_by_sn s hs))"

text \<open>
  The inner loop of the second pass over all device records: it stops at the
  first record whose bus address is the VF's parent address; when no record has
  that address the loop ends and nothing has happened.
\<close>

fun link_vf :: "Config \<Rightarrow> MlnxBFDDevice \<Rightarrow> MlnxBFDDevice list \<Rightarrow> MlnxHCA list \<Rightarrow> (error + MlnxHCA list) option" where
  "link_vf cfg bdf_dev [] hcas = Some (Inr hcas)"
| "link_vf cfg bdf_dev (parent_bdf_dev # rest) hcas =
     (if vfParent bdf_dev = bdf parent_bdf_dev
      then (case get_hca_by_sn (sn parent_bdf_dev) hcas of
              None \<Rightarrow> Some (Inl PyException)
            | Some i \<Rightarrow> (case add_bdf_dev cfg bdf_dev (hcas ! i) of
                          None \<Rightarrow> None
                        | Some h' \<Rightarrow> Some (Inr (hcas[i := h']))))
      else link_vf cfg bdf_dev rest hcas)"

definition handle_vf :: "Config \<Rightarrow> MlnxBFDDevice list \<Rightarrow> MlnxHCA list \<Rightarrow> MlnxBFDDevice \<Rightarrow> (error + MlnxHCA list) option" where
  "handle_vf cfg mlnx_bdf_devices hcas bdf_dev =
     (if is_vf cfg bdf_dev then link_vf cfg bdf_dev mlnx_bdf_devices hcas else Some (Inr hcas))"

fun handle_all_vfs :: "Config \<Rightarrow> MlnxBFDDevice list \<Rightarrow> MlnxBFDDevice list \<Rightarrow> MlnxHCA list \<Rightarrow> (error + MlnxHCA list) option" where
  "handle_all_vfs cfg mlnx_bdf_devices [] hcas = Some (Inr hcas)"
| "handle_all_vfs cfg mlnx_bdf_devices (d # ds) hcas =
     (case handle_vf cfg mlnx_bdf_devices hcas d of
        None \<Rightarrow> None
      | Some (Inl e) \<Rightarrow> Some (Inl e)
      | Some (Inr hcas') \<Rightarrow> handle_all_vfs cfg mlnx_bdf_devices ds hcas')"

definition HCAManager_init :: "Config \<Rightarrow> MlnxBFDDevice list \<Rightarrow> (error + MlnxHCA list) option" where
  "HCAManager_init cfg mlnx_bdf_devices =
     (case handle_all_pfs cfg mlnx_bdf_devices [] of
        None \<Rightarrow> None
      | Some (Inl e) \<Rightarrow> Some (Inl e)
      | Some (Inr hcas) \<Rightarrow> handle_all_vfs cfg mlnx_bdf_devices mlnx_bdf_devices hcas)"

section \<open>Report items\<close>

text \<open>
  A value of a report mapping is a string, or \<^verbatim>\<open>None\<close> (the field
  \<^verbatim>\<open>Operstate\<close> outside the RoCE view). A \<^verbatim>\<open>dict\<close> is an association list
  with one entry per key; the order of the list is the order in which Python
  iterates over the dictionary.
\<close>

datatype pyval = PyStr string | PyNone

type_synonym 'v dict = "(string \<times> 'v) list"

text \<open>\<^verbatim>\<open>key in d\<close>, \<^verbatim>\<open>d[key]\<close> (by \<open>map_of\<close>), \<^verbatim>\<open>list(d)\<close>, \<^verbatim>\<open>d.pop(key, None)\<close>, \<^verbatim>\<open>d[key] = v\<close>.\<close>

definition dict_has :: "string \<Rightarrow> 'v dict \<Rightarrow> bool" where
  "dict_has key d = (map_of d key \<noteq> None)"

definition dict_keys :: "'v dict \<Rightarrow> string list" where
  "dict_keys d = map fst d"

definition dict_pop :: "string \<Rightarrow> 'v dict \<Rightarrow> 'v dict" where
  "dict_pop key d = filter (\<lambda>kv. fst kv \<noteq> key) d"

fun dict_set :: "string \<Rightarrow> 'v \<Rightarrow> 'v dict \<Rightarrow> 'v dict" where
  "dict_set key v [] = [(key, v)]"
| "dict_set key v (kv # d) = (if fst kv = key then (key, v) # d else kv # dict_set key v d)"

text \<open>Python's \<^verbatim>\<open>==\<close> on dictionaries: the same keys with the same values.\<close>

definition dict_eq :: "pyval dict \<Rightarrow> pyval dict \<Rightarrow> bool" where
  "dict_eq a b \<longleftrightarrow>
     (\<forall>k\<in>set (dict_keys a). map_of a k = map_of b k) \<and>
     (\<forall>k\<in>set (dict_keys b). map_of a k = map_of b k)"

text \<open>\<^verbatim>\<open>str(v)\<close> and \<^verbatim>\<open>len(v)\<close>; the length of \<^verbatim>\<open>None\<close> is a \<^verbatim>\<open>TypeError\<close>.\<close>

definition py_str :: "pyval \<Rightarrow> string" where
  "py_str v = (case v of PyStr s \<Rightarrow> s | PyNone \<Rightarrow> ''None'')"

definition py_len :: "pyval \<Rightarrow> error + int" where
  "py_len v = (case v of PyStr s \<Rightarrow> Inr (int (length s)) | PyNone \<Rightarrow> Inl TypeError)"

text \<open>
  \<^verbatim>\<open>xs.remove(x)\<close> takes out the first element equal to \<open>x\<close> and raises
  \<^verbatim>\<open>ValueError\<close> when there is none.
\<close>

fun list_remove :: "('a \<Rightarrow> 'a \<Rightarrow> bool) \<Rightarrow> 'a \<Rightarrow> 'a list \<Rightarrow> error + 'a list" where
  "list_remove eq x [] = Inl ValueError"
| "list_remove eq x (y # ys) =
     (if eq y x then Inr ys
      else (case list_remove eq x ys of Inl e \<Rightarrow> Inl e | Inr zs \<Rightarrow> Inr (y # zs)))"

fun remove_all :: "('a \<Rightarrow> 'a \<Rightarrow> bool) \<Rightarrow> 'a list \<Rightarrow> 'a list \<Rightarrow> error + 'a list" where
  "remove_all eq [] ys = Inr ys"
| "remove_all eq (x # xs) ys =
     (case list_remove eq x ys of Inl e \<Rightarrow> Inl e | Inr zs \<Rightarrow> remove_all eq xs zs)"

text \<open>
  The report item of an adapter: the dictionary with the keys \<^verbatim>\<open>hca_info\<close>
  and \<^verbatim>\<open>bdf_devices\<close> that \<^verbatim>\<open>MlnxHCA.output_info\<close> returns.
\<close>

record Report_Item =
  hca_info :: "pyval dict"
  bdf_devices :: "pyval dict list"

definition item_eq :: "Report_Item \<Rightarrow> Report_Item \<Rightarrow> bool" where
  "item_eq a b \<longleftrightarrow>
     dict_eq (hca_info a) (hca_info b) \<and> list_all2 dict_eq (bdf_devices a) (bdf_devices b)"

text \<open>\<^verbatim>\<open>MlnxBFDDevice.output_info\<close> and \<^verbatim>\<open>MlnxHCA.output_info\<close>.\<close>

definition bdf_output_info :: "Config \<Rightarrow> MlnxBFDDevice \<Rightarrow> pyval dict" where
  "bdf_output_info cfg d =
     [(''SRIOV'', PyStr (if is_pf cfg d then sriov cfg d @ ''  '' else ''  '' @ sriov cfg d)),
      (''Numa'', PyStr (numa d)),
      (''PCI_addr'', PyStr (bdf d)),
      (''Parent_addr'', PyStr (vfParent d)),
      (''RDMA'', PyStr (rdma d)),
      (''Net'', PyStr (net d)),
      (''HCA_Type'', PyStr (hca_type d)),
      (''State'', PyStr (state d)),
      (''Rate'', PyStr (port_rate d)),
      (''Port'', PyStr (port d)),
      (''Link'', PyStr (link_layer d)),
      (''MST_device'', PyStr (mst_device d)),
      (''LnkCapWidth'', PyStr (lnkCapWidth d)),
      (''LnkStaWidth'', PyStr (lnkStaWidth d)),
      (''PLid'', PyStr (plid d)),
      (''PGuid'', PyStr (pguid d)),
      (''IbNetPref'', PyStr (ib_net_prefix d)),
      (''SMGuid'', PyStr (sm_guid d)),
      (''SwGuid'', PyStr (sw_guid d)),
      (''SwDescription'', PyStr (sw_description d)),
      (''VrtHCA'', PyStr (virt_hca d)),
      (''Operstate'', (case operstate d of None \<Rightarrow> PyNone | Some s \<Rightarrow> PyStr s)),
      (''RoCEstat'', PyStr (roce_status d))]"

definition hca_output_info :: "Config \<Rightarrow> MlnxHCA \<Rightarrow> Report_Item" where
  "hca_output_info cfg h =
     \<lparr> hca_info = [(''SN'', PyStr (hca_sn h)), (''PN'', PyStr (hca_pn h)), (''FW'', PyStr (hca_fw h)),
                   (''Desc'', PyStr (hca_description h)), (''Tempr'', PyStr (hca_tempr h)),
                   (''Dev'', PyStr (hca_index h))],
       bdf_devices = map (bdf_output_info cfg) (bfd_devices h) \<rparr>"

section \<open>The output engine\<close>

text \<open>
  The class \<^verbatim>\<open>Output\<close>. Its attribute \<^verbatim>\<open>output_order\<close> is a reference to a
  list; it is \<open>self_output_order\<close> here, the name \<open>output_order\<close> being the
  field of the configuration. \<^verbatim>\<open>Output.__init__\<close> copies the reference, not
  the list.
\<close>

record Output =
  "output" :: "Report_Item list"
  column_width :: "int dict"
  separator :: string
  separator_len :: int
  self_output_order :: addr

definition Output_init :: "Config \<Rightarrow> Output" where
  "Output_init cfg =
     \<lparr> output = [], column_width = [], separator = '''', separator_len = 0,
       self_output_order = output_order cfg \<rparr>"

definition append_item :: "Report_Item \<Rightarrow> Output \<Rightarrow> Output" where
  "append_item data out = out\<lparr>output := output out @ [data]\<rparr>"

subsection \<open>Field selection\<close>

text \<open>The loop that takes the fields of the negative list out of the list of the order.\<close>

fun decrement :: "string list \<Rightarrow> string list \<Rightarrow> string list" where
  "decrement [] decrement_list = decrement_list"
| "decrement (item # output_filter) decrement_list =
     decrement output_filter
       (if item \<in> set decrement_list then remove1 item decrement_list else decrement_list)"

text \<open>The loop that pops the keys to remove from one report item.\<close>

fun pop_keys :: "string list \<Rightarrow> Report_Item \<Rightarrow> Report_Item" where
  "pop_keys [] hca = hca"
| "pop_keys (key # keys) hca =
     pop_keys keys \<lparr> hca_info = dict_pop key (hca_info hca),
                     bdf_devices = map (dict_pop key) (bdf_devices hca) \<rparr>"

text \<open>
  \<^verbatim>\<open>apply_select_output_filters\<close>. The keys to remove are those of the first
  report item (its summary and its first device) that the order does not hold;
  a first item without a device is an \<^verbatim>\<open>IndexError\<close>. The negative list
  changes the list of the order in place, in the store.
\<close>

definition apply_select_output_filters ::
  "Config \<Rightarrow> store \<Rightarrow> Output \<Rightarrow> error + (store \<times> Output)" where
  "apply_select_output_filters cfg st out =
     (let (st1, out1) =
        (if length (st (output_fields_filter_positive cfg)) > 0
         then (st, out\<lparr>self_output_order := output_fields_filter_positive cfg\<rparr>)
         else if length (output_fields_filter_negative cfg) > 0
         then (st(self_output_order out :=
                    decrement (output_fields_filter_negative cfg) (st (self_output_order out))),
               out)
         else (st, out))
      in case output out1 of
           [] \<Rightarrow> Inr (st1, out1)
         | first # rest \<Rightarrow>
             (case bdf_devices first of
                [] \<Rightarrow> Inl IndexError
              | first_dev # others \<Rightarrow>
                  (let output_data_keys = dict_keys (hca_info first) @ dict_keys first_dev;
                       data_keys_remove_list =
                         remdups (filter (\<lambda>k. k \<notin> set (st1 (self_output_order out1))) output_data_keys)
                   in Inr (st1, out1\<lparr>output := map (pop_keys data_keys_remove_list) (output out1)\<rparr>))))"

subsection \<open>Value filter\<close>

text \<open>
  The library \<^verbatim>\<open>re\<close> is not part of the program. A compiled pattern is
  taken as the relation between a text and the positions where a match that
  begins at the start of the text can end: \<open>rx s j\<close> says that the pattern
  matches \<open>s\<close> from position 0 up to position \<open>j\<close>. The relation may depend
  on the whole text, as it does for a pattern with \<^verbatim>\<open>$\<close>, \<^verbatim>\<open>\b\<close> or a
  look-ahead. \<^verbatim>\<open>re.compile\<close> is a parameter \<open>re_compile\<close> that yields the
  compiled pattern (or nothing, for a malformed pattern). \<^verbatim>\<open>re.match\<close> finds
  a match when there is such an end position; \<open>re_fullmatch\<close> asks for a
  match that ends at the end of the text.
\<close>

type_synonym regex = "string \<Rightarrow> nat \<Rightarrow> bool"

definition re_match :: "regex \<Rightarrow> string \<Rightarrow> bool" where
  "re_match rx s = list_ex (rx s) [0..<Suc (length s)]"


text \<open>\<^verbatim>\<open>s.split("=")\<close>.\<close>

fun split_on :: "char \<Rightarrow> string \<Rightarrow> string list" where
  "split_on c [] = [[]]"
| "split_on c (x # xs) =
     (if x = c then [] # split_on c xs
      else (case split_on c xs of [] \<Rightarrow> [[x]] | w # ws \<Rightarrow> (x # w) # ws))"

text \<open>
  \<^verbatim>\<open>dict(item.split("=") for item in ...)\<close>: every item must split in two,
  and a later item replaces an earlier one of the same key.
\<close>

fun dict_of_items :: "string list \<Rightarrow> string dict \<Rightarrow> error + string dict" where
  "dict_of_items [] acc = Inr acc"
| "dict_of_items (item # items) acc =
     (case split_on CHR ''='' item of
        [k, v] \<Rightarrow> dict_of_items items (dict_set k v acc)
      | _ \<Rightarrow> Inl ValueError)"

fun compile_all :: "(string \<Rightarrow> regex option) \<Rightarrow> string dict \<Rightarrow> error + regex dict" where
  "compile_all re_compile [] = Inr []"
| "compile_all re_compile ((k, p) # d) =
     (case re_compile p of
        None \<Rightarrow> Inl ReError
      | Some rx \<Rightarrow> (case compile_all re_compile d of Inl e \<Rightarrow> Inl e | Inr d' \<Rightarrow> Inr ((k, rx) # d')))"

text \<open>
  The test \<^verbatim>\<open>filter_key in m and not re.match(rx, m[filter_key])\<close>;
  \<^verbatim>\<open>re.match\<close> on \<^verbatim>\<open>None\<close> is a \<^verbatim>\<open>TypeError\<close>.
\<close>

definition fails_filter :: "regex \<Rightarrow> string \<Rightarrow> pyval dict \<Rightarrow> error + bool" where
  "fails_filter rx filter_key m =
     (case map_of m filter_key of
        None \<Rightarrow> Inr False
      | Some PyNone \<Rightarrow> Inl TypeError
      | Some (PyStr s) \<Rightarrow> Inr (\<not> re_match rx s))"

fun remove_bdf_list :: "regex \<Rightarrow> string \<Rightarrow> pyval dict list \<Rightarrow> error + pyval dict list" where
  "remove_bdf_list rx filter_key [] = Inr []"
| "remove_bdf_list rx filter_key (bdf_device # ds) =
     (case fails_filter rx filter_key bdf_device of
        Inl e \<Rightarrow> Inl e
      | Inr b \<Rightarrow> (case remove_bdf_list rx filter_key ds of
                    Inl e \<Rightarrow> Inl e
                  | Inr r \<Rightarrow> Inr (if b then bdf_device # r else r)))"

text \<open>
  One report item under one filter key: its devices after the removals, and
  whether the item goes to \<^verbatim>\<open>remove_hca_list\<close>. The test of the summary is
  not evaluated when no device is left.
\<close>

definition filter_hca :: "regex \<Rightarrow> string \<Rightarrow> Report_Item \<Rightarrow> error + (Report_Item \<times> bool)" where
  "filter_hca rx filter_key hca =
     (case remove_bdf_list rx filter_key (bdf_devices hca) of
        Inl e \<Rightarrow> Inl e
      | Inr r \<Rightarrow>
          (case remove_all dict_eq r (bdf_devices hca) of
             Inl e \<Rightarrow> Inl e
           | Inr ds \<Rightarrow>
               (if length ds = 0 then Inr (hca\<lparr>bdf_devices := ds\<rparr>, True)
                else (case fails_filter rx filter_key (hca_info hca) of
                        Inl e \<Rightarrow> Inl e
                      | Inr b \<Rightarrow> Inr (hca\<lparr>bdf_devices := ds\<rparr>, b)))))"

fun filter_hcas :: "regex \<Rightarrow> string \<Rightarrow> Report_Item list \<Rightarrow> error + (Report_Item list \<times> Report_Item list)" where
  "filter_hcas rx filter_key [] = Inr ([], [])"
| "filter_hcas rx filter_key (hca # rest) =
     (case filter_hca rx filter_key hca of
        Inl e \<Rightarrow> Inl e
      | Inr (hca', b) \<Rightarrow>
          (case filter_hcas rx filter_key rest of
             Inl e \<Rightarrow> Inl e
           | Inr (items, remove_hca_list) \<Rightarrow>
               Inr (hca' # items, if b then hca' # remove_hca_list else remove_hca_list)))"

text \<open>The body of the loop over the filter keys.\<close>

definition where_key :: "regex \<Rightarrow> string \<Rightarrow> Report_Item list \<Rightarrow> error + Report_Item list" where
  "where_key rx filter_key items =
     (case filter_hcas rx filter_key items of
        Inl e \<Rightarrow> Inl e
      | Inr (items', remove_hca_list) \<Rightarrow> remove_all item_eq remove_hca_list items')"

fun where_keys :: "regex dict \<Rightarrow> Report_Item list \<Rightarrow> error + Report_Item list" where
  "where_keys [] items = Inr items"
| "where_keys ((filter_key, rx) # output_filter) items =
     (case where_key rx filter_key items of
        Inl e \<Rightarrow> Inl e
      | Inr items' \<Rightarrow> where_keys output_filter items')"

definition apply_where_output_filters ::
  "(string \<Rightarrow> regex option) \<Rightarrow> Config \<Rightarrow> Output \<Rightarrow> error + Output" where
  "apply_where_output_filters re_compile cfg out =
     (if where_output_filter cfg = [] then Inr out
      else (case dict_of_items (where_output_filter cfg) [] of
              Inl e \<Rightarrow> Inl e
            | Inr output_filter \<Rightarrow>
                (case compile_all re_compile output_filter of
                   Inl e \<Rightarrow> Inl e
                 | Inr compiled \<Rightarrow>
                     (case where_keys compiled (output out) of
                        Inl e \<Rightarrow> Inl e
                      | Inr items \<Rightarrow> Inr (out\<lparr>output := items\<rparr>)))))"

definition filter_out_data ::
  "(string \<Rightarrow> regex option) \<Rightarrow> Config \<Rightarrow> store \<Rightarrow> Output \<Rightarrow> error + (store \<times> Output)" where
  "filter_out_data re_compile cfg st out =
     (case apply_where_output_filters re_compile cfg out of
        Inl e \<Rightarrow> Inl e
      | Inr out' \<Rightarrow> apply_select_output_filters cfg st out')"

subsection \<open>Widths of the table\<close>

text \<open>
  The part of \<^verbatim>\<open>print_output\<close> that computes the widths. \<open>order\<close> is the
  list \<^verbatim>\<open>self.output_order\<close> refers to.
\<close>

definition width_of_key :: "string list \<Rightarrow> pyval dict \<Rightarrow> int dict \<Rightarrow> string \<Rightarrow> error + int dict" where
  "width_of_key order data cw key =
     (if key \<in> set order
      then (case map_of data key of
              None \<Rightarrow> Inr cw
            | Some v \<Rightarrow>
                (case py_len v of
                   Inl e \<Rightarrow> Inl e
                 | Inr n \<Rightarrow>
                     (let width = (if n > int (length key) then n else int (length key))
                      in (case map_of cw key of
                            None \<Rightarrow> Inr (dict_set key width cw)
                          | Some w \<Rightarrow> if n > w then Inr (dict_set key width cw) else Inr cw))))
      else Inr cw)"

fun widths_of_keys :: "string list \<Rightarrow> pyval dict \<Rightarrow> string list \<Rightarrow> int dict \<Rightarrow> error + int dict" where
  "widths_of_keys order data [] cw = Inr cw"
| "widths_of_keys order data (key # keys) cw =
     (case width_of_key order data cw key of
        Inl e \<Rightarrow> Inl e
      | Inr cw' \<Rightarrow> widths_of_keys order data keys cw')"

fun widths_of_devices :: "string list \<Rightarrow> pyval dict list \<Rightarrow> int dict \<Rightarrow> error + int dict" where
  "widths_of_devices order [] cw = Inr cw"
| "widths_of_devices order (data # rest) cw =
     (case widths_of_keys order data (dict_keys data) cw of
        Inl e \<Rightarrow> Inl e
      | Inr cw' \<Rightarrow> widths_of_devices order rest cw')"

fun hca_info_width :: "pyval dict \<Rightarrow> int \<Rightarrow> int" where
  "hca_info_width [] hca_info_line_width = hca_info_line_width"
| "hca_info_width ((key, v) # info) hca_info_line_width =
     (let current_width = int (length key) + int (length (py_str v)) + 5
      in hca_info_width info
           (if hca_info_line_width < current_width then current_width else hca_info_line_width))"

fun widths_of_items :: "string list \<Rightarrow> Report_Item list \<Rightarrow> int dict \<times> int \<Rightarrow> error + (int dict \<times> int)" where
  "widths_of_items order [] acc = Inr acc"
| "widths_of_items order (output_key # rest) (cw, hca_info_line_width) =
     (case widths_of_devices order (bdf_devices output_key) cw of
        Inl e \<Rightarrow> Inl e
      | Inr cw' \<Rightarrow>
          widths_of_items order rest (cw', hca_info_width (hca_info output_key) hca_info_line_width))"

text \<open>
  \<^verbatim>\<open>print_output\<close> from the loop over the report items up to the
  assignment of the separator line, in the format \<^verbatim>\<open>human_readable\<close>.
\<close>

definition set_widths :: "Config \<Rightarrow> string list \<Rightarrow> Output \<Rightarrow> error + Output" where
  "set_widths cfg order out =
     (case widths_of_items order (output out) (column_width out, 0) of
        Inl e \<Rightarrow> Inl e
      | Inr (cw, hca_info_line_width) \<Rightarrow>
          (let bdf_device_line_width = sum_list (map snd cw) + int (length cw) * 3 - 2;
               len = (if bdf_device_line_width > hca_info_line_width
                      then bdf_device_line_width else hca_info_line_width)
           in Inr (out\<lparr>column_width := cw, separator_len := len,
                       separator := concat (replicate (nat len) (output_separator_char cfg))\<rparr>)))"

subsection \<open>Printing\<close>

text \<open>
  \<^verbatim>\<open>print_hca_info\<close>: the lines of the summary of an adapter, each field at
  the position its key has among the keys of the order that the summary holds.
  The function prints the lines joined by line breaks; its value here is the
  list of the lines.
\<close>

fun order_dict :: "string list \<Rightarrow> pyval dict \<Rightarrow> nat \<Rightarrow> nat dict \<Rightarrow> nat dict" where
  "order_dict [] args position acc = acc"
| "order_dict (key # keys) args position acc =
     (if dict_has key args then order_dict keys args (position + 1) (dict_set key position acc)
      else order_dict keys args position acc)"

definition hca_info_line :: "string \<Rightarrow> pyval \<Rightarrow> string" where
  "hca_info_line key v =
     (if key = ''Dev'' then key @ '' '' @ py_str v else '' '' @ key @ '': '' @ py_str v)"

fun place_lines :: "nat dict \<Rightarrow> pyval dict \<Rightarrow> string list \<Rightarrow> string list \<Rightarrow> string list" where
  "place_lines od args [] output_list = output_list"
| "place_lines od args (key # keys) output_list =
     place_lines od args keys
       (case map_of od key of
          None \<Rightarrow> output_list
        | Some p \<Rightarrow> take p output_list @
                    [hca_info_line key (case map_of args key of Some v \<Rightarrow> v | None \<Rightarrow> PyNone)] @
                    drop (p + 1) output_list)"

definition print_hca_info :: "string list \<Rightarrow> pyval dict \<Rightarrow> string list" where
  "print_hca_info order args =
     (let od = order_dict order args 0 []
      in place_lines od args (dict_keys args) (replicate (length od) ''''))"

text \<open>\<^verbatim>\<open>sep.join(xs)\<close>.\<close>

fun str_join :: "string \<Rightarrow> string list \<Rightarrow> string" where
  "str_join sep [] = []"
| "str_join sep [x] = x"
| "str_join sep (x # y # ys) = x @ sep @ str_join sep (y # ys)"

text \<open>
  \<^verbatim>\<open>"{0:^{width}}".format(s, width=w)\<close>: the text in the middle of \<open>w\<close>
  columns, the odd blank on its right; a text longer than \<open>w\<close> is left as it
  is, and a negative width is a \<^verbatim>\<open>ValueError\<close>.
\<close>

definition center :: "string \<Rightarrow> int \<Rightarrow> error + string" where
  "center s w =
     (if w < 0 then Inl ValueError
      else (let pad = nat w - length s
            in Inr (replicate (pad div 2) CHR '' '' @ s @ replicate (pad - pad div 2) CHR '' '')))"

text \<open>The cell of a column: \<^verbatim>\<open>self.column_width[key]\<close> is a \<^verbatim>\<open>KeyError\<close> without a width for the key.\<close>

definition format_cell :: "int dict \<Rightarrow> string \<Rightarrow> string \<Rightarrow> error + string" where
  "format_cell cw key s = (case map_of cw key of None \<Rightarrow> Inl KeyError | Some w \<Rightarrow> center s w)"

text \<open>
  The loop \<^verbatim>\<open>for key in line\<close> of \<^verbatim>\<open>print_bdf_devices\<close>, which puts the cell
  of every key of \<^verbatim>\<open>order_dict\<close> at its position; \<open>cell_text\<close> gives the text of
  the cell, the key itself in the head of the table and the value in a row.
\<close>

fun place_cells ::
  "nat dict \<Rightarrow> int dict \<Rightarrow> (string \<Rightarrow> string) \<Rightarrow> string list \<Rightarrow> string list \<Rightarrow> error + string list" where
  "place_cells od cw cell_text [] output_list = Inr output_list"
| "place_cells od cw cell_text (key # keys) output_list =
     (case map_of od key of
        None \<Rightarrow> place_cells od cw cell_text keys output_list
      | Some p \<Rightarrow>
          (case format_cell cw key (cell_text key) of
             Inl e \<Rightarrow> Inl e
           | Inr c \<Rightarrow> place_cells od cw cell_text keys (take p output_list @ [c] @ drop (p + 1) output_list)))"

text \<open>
  The loop \<^verbatim>\<open>for line in args\<close> of \<^verbatim>\<open>print_bdf_devices\<close>. Its value is the
  list of the texts printed, one for every \<^verbatim>\<open>print\<close>; \<open>cnt\<close> is the
  variable \<^verbatim>\<open>count\<close>. The first line prints the head of the table and the
  separator before its row, and its row is written over the cells of the head.
  Python 2 formats the value \<^verbatim>\<open>None\<close> as the text \<^verbatim>\<open>None\<close>.
\<close>

fun print_rows :: "nat dict \<Rightarrow> int dict \<Rightarrow> string \<Rightarrow> nat \<Rightarrow> pyval dict list \<Rightarrow> error + string list" where
  "print_rows od cw sep cnt [] = Inr []"
| "print_rows od cw sep cnt (line # rest) =
     (case (if cnt = 1
            then (case place_cells od cw (\<lambda>key. key) (dict_keys line) (replicate (length od) []) of
                    Inl e \<Rightarrow> Inl e
                  | Inr head \<Rightarrow> Inr (head, [str_join '' | '' head, sep]))
            else Inr (replicate (length od) [], [])) of
        Inl e \<Rightarrow> Inl e
      | Inr (output_list, printed) \<Rightarrow>
          (case place_cells od cw
                  (\<lambda>key. py_str (case map_of line key of Some v \<Rightarrow> v | None \<Rightarrow> PyNone))
                  (dict_keys line) output_list of
             Inl e \<Rightarrow> Inl e
           | Inr row \<Rightarrow>
               (case print_rows od cw sep (cnt + 1) rest of
                  Inl e \<Rightarrow> Inl e
                | Inr below \<Rightarrow> Inr (printed @ [str_join '' | '' row] @ below))))"

text \<open>
  \<^verbatim>\<open>print_bdf_devices\<close>. \<^verbatim>\<open>args[0]\<close> is evaluated for every key of the
  order, so an empty list of devices is an \<^verbatim>\<open>IndexError\<close> unless the order
  is empty.
\<close>

definition print_bdf_devices :: "string list \<Rightarrow> int dict \<Rightarrow> string \<Rightarrow> pyval dict list \<Rightarrow> error + string list" where
  "print_bdf_devices order cw sep args =
     (case args of
        [] \<Rightarrow> (if order = [] then Inr [] else Inl IndexError)
      | first # rest \<Rightarrow> print_rows (order_dict order first 0 []) cw sep 1 args)"

text \<open>The loop of \<^verbatim>\<open>print_output\<close> that prints the report items.\<close>

fun print_items :: "string list \<Rightarrow> int dict \<Rightarrow> string \<Rightarrow> Report_Item list \<Rightarrow> error + string list" where
  "print_items order cw sep [] = Inr []"
| "print_items order cw sep (output_key # rest) =
     (case print_bdf_devices order cw sep (bdf_devices output_key) of
        Inl e \<Rightarrow> Inl e
      | Inr table \<Rightarrow>
          (case print_items order cw sep rest of
             Inl e \<Rightarrow> Inl e
           | Inr below \<Rightarrow>
               Inr ([str_join [CHR 0x0A] (print_hca_info order (hca_info output_key)), sep] @
                    table @ [sep] @ below)))"

text \<open>
  \<^verbatim>\<open>json.dumps(self.output, indent=4, sort_keys=True)\<close> of Python 2: every
  element of a list and every member of an object on a line of its own, four
  blanks deeper than the brackets around it, the separator \<^verbatim>\<open>", "\<close> at the
  end of the line; the members of an object in the ascending order of their
  keys, which are byte strings; \<^verbatim>\<open>None\<close> as \<^verbatim>\<open>null\<close>. The text of a string
  literal is given by the parameter \<open>encode_basestring_ascii\<close>.
\<close>

definition newline_indent :: "nat \<Rightarrow> string" where
  "newline_indent level = CHR 0x0A # replicate (4 * level) CHR '' ''"

definition json_value :: "(string \<Rightarrow> string) \<Rightarrow> pyval \<Rightarrow> string" where
  "json_value encode_basestring_ascii v =
     (case v of PyStr s \<Rightarrow> encode_basestring_ascii s | PyNone \<Rightarrow> ''null'')"

definition json_list :: "nat \<Rightarrow> string list \<Rightarrow> string" where
  "json_list level chunks =
     (if chunks = [] then ''[]''
      else ''['' @ newline_indent (level + 1) @
           str_join ('', '' @ newline_indent (level + 1)) chunks @
           newline_indent level @ '']'')"

definition json_members :: "'v dict \<Rightarrow> 'v dict" where
  "json_members dct = sort_key fst dct"

definition json_dict :: "(string \<Rightarrow> string) \<Rightarrow> nat \<Rightarrow> pyval dict \<Rightarrow> string" where
  "json_dict encode_basestring_ascii level dct =
     (if dct = [] then ''{}''
      else ''{'' @ newline_indent (level + 1) @
           str_join ('', '' @ newline_indent (level + 1))
             (map (\<lambda>kv. encode_basestring_ascii (fst kv) @ '': '' @
                         json_value encode_basestring_ascii (snd kv))
                  (json_members dct)) @
           newline_indent level @ ''}'')"

text \<open>A report item is an object with the keys \<^verbatim>\<open>bdf_devices\<close> and \<^verbatim>\<open>hca_info\<close>, in this order.\<close>

definition json_item :: "(string \<Rightarrow> string) \<Rightarrow> nat \<Rightarrow> Report_Item \<Rightarrow> string" where
  "json_item encode_basestring_ascii level hca =
     ''{'' @ newline_indent (level + 1) @
     encode_basestring_ascii ''bdf_devices'' @ '': '' @
     json_list (level + 1) (map (json_dict encode_basestring_ascii (level + 2)) (bdf_devices hca)) @
     '', '' @ newline_indent (level + 1) @
     encode_basestring_ascii ''hca_info'' @ '': '' @
     json_dict encode_basestring_ascii (level + 1) (hca_info hca) @
     newline_indent level @ ''}''"

definition json_dumps :: "(string \<Rightarrow> string) \<Rightarrow> Report_Item list \<Rightarrow> string" where
  "json_dumps encode_basestring_ascii items =
     json_list 0 (map (json_item encode_basestring_ascii 1) items)"

text \<open>
  \<^verbatim>\<open>print_output\<close>: the report after the filters, and the list of the texts
  printed. Another format than \<^verbatim>\<open>human_readable\<close> and \<^verbatim>\<open>json\<close> prints
  nothing.
\<close>

definition print_output ::
  "(string \<Rightarrow> regex option) \<Rightarrow> (string \<Rightarrow> string) \<Rightarrow> Config \<Rightarrow> store \<Rightarrow> Output \<Rightarrow>
     error + (store \<times> Output \<times> string list)" where
  "print_output re_compile encode_basestring_ascii cfg st out =
     (case filter_out_data re_compile cfg st out of
        Inl e \<Rightarrow> Inl e
      | Inr (st', out') \<Rightarrow>
          (if output_format cfg = ''human_readable''
           then (case set_widths cfg (st' (self_output_order out')) out' of
                   Inl e \<Rightarrow> Inl e
                 | Inr out'' \<Rightarrow>
                     (case print_items (st' (self_output_order out'')) (column_width out'')
                             (separator out'') (output out'') of
                        Inl e \<Rightarrow> Inl e
                      | Inr printed \<Rightarrow> Inr (st', out'', separator out'' # printed)))
           else if output_format cfg = ''json''
           then Inr (st', out', [json_dumps encode_basestring_ascii (output out')])
           else Inr (st', out', [])))"

text \<open>\<^verbatim>\<open>display_hcas_info\<close>.\<close>

definition display_hcas_info ::
  "(string \<Rightarrow> regex option) \<Rightarrow> (string \<Rightarrow> string) \<Rightarrow> Config \<Rightarrow> store \<Rightarrow> MlnxHCA list \<Rightarrow>
     error + (store \<times> Output \<times> string list)" where
  "display_hcas_info re_compile encode_basestring_ascii cfg st mlnxHCAs =
     print_output re_compile encode_basestring_ascii cfg st
       (fold (\<lambda>hca out. append_item (hca_output_info cfg hca) out) mlnxHCAs (Output_init cfg))"

section \<open>Notions used to state the properties of the assembly\<close>

text \<open>
  What the loop of \<^verbatim>\<open>add_bdf_dev\<close> computes when it ends: the new record
  stands after every record whose bus address is its parent address.
\<close>

definition ins_after :: "MlnxBFDDevice \<Rightarrow> MlnxBFDDevice list \<Rightarrow> MlnxBFDDevice list" where
  "ins_after v ds = concat (map (\<lambda>d. if bdf d = vfParent v then [d, v] else [d]) ds)"

text \<open>The effect of the first pass on one adapter record that exists already.\<close>

definition join_sn :: "MlnxBFDDevice \<Rightarrow> MlnxHCA \<Rightarrow> MlnxHCA" where
  "join_sn d h = (if sn d = hca_sn h then h\<lparr>bfd_devices := bfd_devices h @ [d]\<rparr> else h)"

text \<open>
  An adapter record as the first pass leaves it after the records \<open>seen\<close>: it
  holds the PFs of its serial number in the order of discovery, and its summary
  fields are those of the first of them.
\<close>

definition founded :: "Config \<Rightarrow> MlnxBFDDevice list \<Rightarrow> MlnxHCA \<Rightarrow> bool" where
  "founded cfg seen h \<longleftrightarrow>
     bfd_devices h = filter (\<lambda>d. is_pf cfg d \<and> sn d = hca_sn h) seen \<and>
     bfd_devices h \<noteq> [] \<and>
     MlnxHCA_init cfg (hd (bfd_devices h)) =
       Inr (h\<lparr>bfd_devices := [hd (bfd_devices h)], hca_index_raw := None\<rparr>)"

definition pf_inv :: "Config \<Rightarrow> MlnxBFDDevice list \<Rightarrow> MlnxHCA list \<Rightarrow> bool" where
  "pf_inv cfg seen hcas \<longleftrightarrow>
     distinct (map hca_sn hcas) \<and>
     (\<forall>h\<in>set hcas. founded cfg seen h) \<and>
     map hca_index_raw hcas = map Some [1..<Suc (length hcas)] \<and>
     (\<forall>d\<in>set seen. is_pf cfg d \<longrightarrow> sn d \<in> hca_sn ` set hcas)"

text \<open>
  The order of a device sequence: every VF stands in the run of VFs that
  follows a record of its parent address; \<open>cur\<close> is the bus address of the
  last record that is not a VF.
\<close>

fun vf_runs :: "Config \<Rightarrow> string option \<Rightarrow> MlnxBFDDevice list \<Rightarrow> bool" where
  "vf_runs cfg cur [] = True"
| "vf_runs cfg cur (d # ds) =
     (if is_vf cfg d then cur = Some (vfParent d) \<and> vf_runs cfg cur ds
      else vf_runs cfg (Some (bdf d)) ds)"

text \<open>The elements of a list in the order of their first occurrence.\<close>

fun first_seen :: "string list \<Rightarrow> string list" where
  "first_seen [] = []"
| "first_seen (x # xs) = x # filter (\<lambda>y. y \<noteq> x) (first_seen xs)"

text \<open>What the second pass may do to an adapter record: add VFs behind its first record.\<close>

definition same_adapter :: "Config \<Rightarrow> MlnxHCA \<Rightarrow> MlnxHCA \<Rightarrow> bool" where
  "same_adapter cfg h h' \<longleftrightarrow>
     hca_sn h' = hca_sn h \<and> hca_pn h' = hca_pn h \<and> hca_fw h' = hca_fw h \<and>
     hca_description h' = hca_description h \<and> hca_tempr h' = hca_tempr h \<and>
     hca_index_raw h' = hca_index_raw h \<and>
     filter (\<lambda>d. \<not> is_vf cfg d) (bfd_devices h') = filter (\<lambda>d. \<not> is_vf cfg d) (bfd_devices h) \<and>
     (bfd_devices h \<noteq> [] \<longrightarrow> bfd_devices h' \<noteq> [] \<and> hd (bfd_devices h') = hd (bfd_devices h)) \<and>
     set (bfd_devices h) \<subseteq> set (bfd_devices h')"

text \<open>
  The linkage the data sources give: a VF has a parent address (\<^verbatim>\<open>"-"\<close> marks
  a PF), some record has that address, and every record at that address is a
  PF. \<open>wf_parents\<close> is the part of it that the invariants of the second pass
  need.
\<close>

definition resolved_parents :: "Config \<Rightarrow> MlnxBFDDevice list \<Rightarrow> bool" where
  "resolved_parents cfg devs \<longleftrightarrow>
     (\<forall>v\<in>set devs. is_vf cfg v \<longrightarrow>
        vfParent v \<noteq> ''-'' \<and> (\<exists>p\<in>set devs. bdf p = vfParent v) \<and>
        (\<forall>d\<in>set devs. bdf d = vfParent v \<longrightarrow> is_pf cfg d))"

definition wf_parents :: "Config \<Rightarrow> MlnxBFDDevice list \<Rightarrow> bool" where
  "wf_parents cfg devs \<longleftrightarrow>
     (\<forall>v\<in>set devs. is_vf cfg v \<longrightarrow>
        vfParent v \<noteq> ''-'' \<and> (\<forall>d\<in>set devs. bdf d = vfParent v \<longrightarrow> is_pf cfg d))"

text \<open>The adapter record the second pass picks for a VF.\<close>

definition vf_target :: "MlnxBFDDevice list \<Rightarrow> MlnxHCA list \<Rightarrow> MlnxBFDDevice \<Rightarrow> nat option" where
  "vf_target devs hcas v =
     (case find (\<lambda>p. vfParent v = bdf p) devs of
        None \<Rightarrow> None
      | Some p \<Rightarrow> get_hca_by_sn (sn p) hcas)"

definition vf_inv :: "Config \<Rightarrow> MlnxBFDDevice list \<Rightarrow> MlnxHCA list \<Rightarrow> bool" where
  "vf_inv cfg devs hcas \<longleftrightarrow>
     (\<forall>k<length hcas.
        set (bfd_devices (hcas ! k)) \<subseteq> set devs \<and>
        vf_runs cfg None (bfd_devices (hcas ! k)) \<and>
        (\<forall>v\<in>set (bfd_devices (hcas ! k)). is_vf cfg v \<longrightarrow> vf_target devs hcas v = Some k))"

definition pf_placed :: "Config \<Rightarrow> MlnxBFDDevice list \<Rightarrow> MlnxHCA list \<Rightarrow> bool" where
  "pf_placed cfg devs hcas \<longleftrightarrow>
     (\<forall>p\<in>set devs. is_pf cfg p \<longrightarrow>
        (\<exists>k<length hcas. get_hca_by_sn (sn p) hcas = Some k \<and> p \<in> set (bfd_devices (hcas ! k))))"

section \<open>Example hosts\<close>

text \<open>
  The configuration as \<^verbatim>\<open>Config.__init__\<close> leaves it, with its lists at the
  addresses 0 to 3, and the records of one card: a PF, two VFs of it, and a VF
  whose parent address no record has; \<open>ex_pf2\<close> is the PF of a second card.
\<close>

definition ex_cfg :: Config where
  "ex_cfg = \<lparr> output_view = ''system'',
     output_order_general = [''system'' \<mapsto> 0, ''ib'' \<mapsto> 1, ''roce'' \<mapsto> 2], output_order = 0,
     show_warnings_and_errors = True, warning_sign = ''*'', error_sign = '' >!<'',
     output_format = ''human_readable'', output_separator_char = ''-'',
     output_fields_filter_positive = 3, output_fields_filter_negative = [],
     where_output_filter = [] \<rparr>"

definition ex_pf :: MlnxBFDDevice where
  "ex_pf = \<lparr> bdf = ''0000:01:00.0'', port = ''1'', sysfs_sriov = ''PF'', vfParent = ''-'',
     sn = ''SN123'', pn = ''MCX556A'', fw = ''16.35'', description = ''ConnectX-5'', tempr = ''=N/A='',
     numa = ''0'', rdma = ''mlx5_0'', net = ''eth0'', hca_type = ''MT4119'', state = ''actv'',
     port_rate = ''100'', link_layer = ''Eth'', mst_device = '''', lnkCapWidth = ''x16 G3'',
     lnkStaWidth = ''x16'', plid = ''0'', pguid = '''', ib_net_prefix = '''', sm_guid = '''',
     sw_guid = '''', sw_description = '''', virt_hca = ''=N/A='', operstate = None,
     roce_status = ''Lossy'' \<rparr>"

definition ex_vf1 :: MlnxBFDDevice where
  "ex_vf1 = ex_pf\<lparr>bdf := ''0000:01:00.1'', sysfs_sriov := ''VF'', vfParent := ''0000:01:00.0''\<rparr>"

definition ex_vf2 :: MlnxBFDDevice where
  "ex_vf2 = ex_pf\<lparr>bdf := ''0000:01:00.2'', sysfs_sriov := ''VF'', vfParent := ''0000:01:00.0''\<rparr>"

definition ex_orphan :: MlnxBFDDevice where
  "ex_orphan = ex_pf\<lparr>bdf := ''0000:02:00.1'', sysfs_sriov := ''VF'', vfParent := ''0000:02:00.0''\<rparr>"

definition ex_pf2 :: MlnxBFDDevice where
  "ex_pf2 = ex_pf\<lparr>bdf := ''0000:03:00.0'', sn := ''SN100'', pn := ''MCX4121A''\<rparr>"

definition ex_hca :: "MlnxBFDDevice list \<Rightarrow> MlnxHCA" where
  "ex_hca ds = \<lparr> bfd_devices = ds, hca_sn = ''SN123'', hca_pn = ''MCX556A'', hca_fw = ''16.35'',
      hca_description = ''ConnectX-5'', hca_tempr = ''=N/A='', hca_index_raw = Some 1 \<rparr>"

section \<open>Notions used to state the properties of the output engine\<close>

text \<open>A mapping, and a report item, cut down to the fields of a list.\<close>

definition dict_restrict :: "string list \<Rightarrow> 'v dict \<Rightarrow> 'v dict" where
  "dict_restrict order m = filter (\<lambda>kv. fst kv \<in> set order) m"

definition restrict_item :: "string list \<Rightarrow> Report_Item \<Rightarrow> Report_Item" where
  "restrict_item order hca =
     \<lparr> hca_info = dict_restrict order (hca_info hca),
       bdf_devices = map (dict_restrict order) (bdf_devices hca) \<rparr>"

text \<open>
  The report items that \<^verbatim>\<open>output_info\<close> builds have the same keys in every
  summary and the same keys in every device mapping, and every adapter has a
  device.
\<close>

definition uniform_keys :: "Report_Item list \<Rightarrow> bool" where
  "uniform_keys items \<longleftrightarrow>
     (\<forall>a\<in>set items. \<forall>b\<in>set items.
        set (dict_keys (hca_info a)) = set (dict_keys (hca_info b)) \<and>
        (\<forall>d\<in>set (bdf_devices a). \<forall>e\<in>set (bdf_devices b). set (dict_keys d) = set (dict_keys e))) \<and>
     (\<forall>a\<in>set items. bdf_devices a \<noteq> [])"

text \<open>
  The two steps of \<^verbatim>\<open>apply_select_output_filters\<close>: the choice of the list
  of the order, and the keys to remove, taken from the first report item.
\<close>

definition choose_order :: "Config \<Rightarrow> store \<Rightarrow> Output \<Rightarrow> store \<times> Output" where
  "choose_order cfg st out =
        (if length (st (output_fields_filter_positive cfg)) > 0
         then (st, out\<lparr>self_output_order := output_fields_filter_positive cfg\<rparr>)
         else if length (output_fields_filter_negative cfg) > 0
         then (st(self_output_order out :=
                    decrement (output_fields_filter_negative cfg) (st (self_output_order out))),
               out)
         else (st, out))"

definition keys_to_remove :: "string list \<Rightarrow> Report_Item list \<Rightarrow> string list" where
  "keys_to_remove order items =
     (case items of [] \<Rightarrow> []
      | first # rest \<Rightarrow> (case bdf_devices first of [] \<Rightarrow> []
          | first_dev # others \<Rightarrow>
              remdups (filter (\<lambda>k. k \<notin> set order) (dict_keys (hca_info first) @ dict_keys first_dev))))"

text \<open>
  A mapping passes a filter key when it does not hold the key or its value
  matches; an adapter keeps the devices that pass, and is dropped when none is
  left or its summary does not pass.
\<close>

definition keeps :: "regex \<Rightarrow> string \<Rightarrow> pyval dict \<Rightarrow> bool" where
  "keeps rx filter_key m =
     (case map_of m filter_key of Some (PyStr s) \<Rightarrow> re_match rx s | _ \<Rightarrow> True)"

definition kept_devices :: "regex \<Rightarrow> string \<Rightarrow> Report_Item \<Rightarrow> Report_Item" where
  "kept_devices rx key hca = hca\<lparr>bdf_devices := filter (keeps rx key) (bdf_devices hca)\<rparr>"

definition dropped :: "regex \<Rightarrow> string \<Rightarrow> Report_Item \<Rightarrow> bool" where
  "dropped rx key hca = (bdf_devices hca = [] \<or> \<not> keeps rx key (hca_info hca))"

definition where_pure :: "regex \<Rightarrow> string \<Rightarrow> Report_Item list \<Rightarrow> Report_Item list" where
  "where_pure rx filter_key items =
     filter (\<lambda>hca. \<not> dropped rx filter_key hca) (map (kept_devices rx filter_key) items)"


definition count_devices :: "Report_Item list \<Rightarrow> nat" where
  "count_devices items = sum_list (map (\<lambda>hca. length (bdf_devices hca)) items)"

text \<open>
  The widths of the table: what one device row does to the width of a column,
  the lengths of the values of a field in the rows, the width of a column, the
  widths of the summary lines, and the rows of all adapters.
\<close>

definition upd_width :: "string list \<Rightarrow> string \<Rightarrow> pyval dict \<Rightarrow> int option \<Rightarrow> int option" where
  "upd_width order key data w =
     (if key \<in> set order
      then (case map_of data key of
              Some (PyStr s) \<Rightarrow>
                (case w of
                   None \<Rightarrow> Some (max (int (length s)) (int (length key)))
                 | Some w0 \<Rightarrow> if int (length s) > w0 then Some (max (int (length s)) (int (length key)))
                             else Some w0)
            | _ \<Rightarrow> w)
      else w)"

definition value_lengths :: "string \<Rightarrow> pyval dict list \<Rightarrow> int list" where
  "value_lengths key rows =
     concat (map (\<lambda>d. case map_of d key of Some (PyStr s) \<Rightarrow> [int (length s)] | _ \<Rightarrow> []) rows)"

definition col_width :: "string list \<Rightarrow> pyval dict list \<Rightarrow> string \<Rightarrow> int option" where
  "col_width order rows key =
     (if key \<in> set order \<and> (\<exists>d\<in>set rows. dict_has key d)
      then Some (Max (set (int (length key) # value_lengths key rows)))
      else None)"

definition summary_widths :: "Report_Item list \<Rightarrow> int list" where
  "summary_widths items =
     concat (map (\<lambda>hca. map (\<lambda>kv. int (length (fst kv)) + int (length (py_str (snd kv))) + 5)
                           (hca_info hca)) items)"

definition device_rows :: "Report_Item list \<Rightarrow> pyval dict list" where
  "device_rows items = concat (map bdf_devices items)"

definition str_rows :: "string list \<Rightarrow> pyval dict list \<Rightarrow> bool" where
  "str_rows order rows \<longleftrightarrow> (\<forall>d\<in>set rows. \<forall>k\<in>set order. map_of d k \<noteq> Some PyNone)"

text \<open>
  The keys of the order that a summary holds, in the order of the list, and the
  line \<^verbatim>\<open>print_hca_info\<close> prints for a key.
\<close>

definition present :: "string list \<Rightarrow> pyval dict \<Rightarrow> string list" where
  "present order args = filter (\<lambda>k. dict_has k args) order"

definition summary_line :: "pyval dict \<Rightarrow> string \<Rightarrow> string" where
  "summary_line args key =
     hca_info_line key (case map_of args key of Some v \<Rightarrow> v | None \<Rightarrow> PyNone)"

text \<open>
  The device table as \<^verbatim>\<open>print_bdf_devices\<close> prints it: a text in the middle
  of its column, the text of a value, the width of a column, the head of the
  table and a row with the columns in the order of the list, and the table,
  whose columns are the keys of the order that the first device holds.
\<close>

definition centered :: "string \<Rightarrow> nat \<Rightarrow> string" where
  "centered s w =
     replicate ((w - length s) div 2) CHR '' '' @ s @
     replicate ((w - length s) - (w - length s) div 2) CHR '' ''"

definition value_text :: "pyval dict \<Rightarrow> string \<Rightarrow> string" where
  "value_text line key = py_str (case map_of line key of Some v \<Rightarrow> v | None \<Rightarrow> PyNone)"

definition width_of :: "int dict \<Rightarrow> string \<Rightarrow> nat" where
  "width_of cw key = nat (case map_of cw key of Some w \<Rightarrow> w | None \<Rightarrow> 0)"

definition table_head :: "string list \<Rightarrow> int dict \<Rightarrow> pyval dict \<Rightarrow> string" where
  "table_head order cw first =
     str_join '' | '' (map (\<lambda>k. centered k (width_of cw k)) (present order first))"

definition table_row :: "string list \<Rightarrow> int dict \<Rightarrow> pyval dict \<Rightarrow> pyval dict \<Rightarrow> string" where
  "table_row order cw first line =
     str_join '' | '' (map (\<lambda>k. centered (value_text line k) (width_of cw k)) (present order first))"

definition table_lines :: "string list \<Rightarrow> int dict \<Rightarrow> string \<Rightarrow> pyval dict list \<Rightarrow> string list" where
  "table_lines order cw sep args =
     table_head order cw (hd args) # sep # map (table_row order cw (hd args)) args"

text \<open>Every key of the list has a column width, and none is negative.\<close>

definition has_widths :: "int dict \<Rightarrow> string list \<Rightarrow> bool" where
  "has_widths cw keys \<longleftrightarrow>
     (\<forall>k\<in>set keys. case map_of cw k of None \<Rightarrow> False | Some w \<Rightarrow> 0 \<le> w)"

text \<open>
  A report item has a device, and its devices hold the same keys; and the
  texts that \<^verbatim>\<open>print_output\<close> prints after the first separator in the format
  \<^verbatim>\<open>human_readable\<close>: for every report item the lines of the summary in one
  text, the separator, the device table, the separator.
\<close>

definition table_shape :: "Report_Item \<Rightarrow> bool" where
  "table_shape hca \<longleftrightarrow>
     bdf_devices hca \<noteq> [] \<and>
     (\<forall>line\<in>set (bdf_devices hca). set (dict_keys line) = set (dict_keys (hd (bdf_devices hca))))"

definition report_lines :: "string list \<Rightarrow> int dict \<Rightarrow> string \<Rightarrow> Report_Item list \<Rightarrow> string list" where
  "report_lines order cw sep items =
     concat (map (\<lambda>hca.
        [str_join [CHR 0x0A] (map (summary_line (hca_info hca)) (present order (hca_info hca))), sep] @
        table_lines order cw sep (bdf_devices hca) @ [sep]) items)"

text \<open>The texts that a run of \<^verbatim>\<open>print_output\<close> prints.\<close>

definition printed_texts :: "error + (store \<times> Output \<times> string list) \<Rightarrow> string list option" where
  "printed_texts r = (case r of Inl e \<Rightarrow> None | Inr (st, out, texts) \<Rightarrow> Some texts)"

section \<open>Example reports\<close>

text \<open>
  The lists of \<^verbatim>\<open>output_order_general\<close> at their addresses, an adapter
  with an active and a down port, and \<^verbatim>\<open>re.compile\<close> on patterns without
  metacharacters: such a pattern matches where the text starts with it, and
  the match ends where the pattern ends. \<open>ex_encode\<close> is the string literal
  of JSON for a text of printable ASCII characters without quote and backslash.
\<close>

definition ex_store :: store where
  "ex_store = (\<lambda>a. [])
     (0 := [''Dev'', ''Desc'', ''PN'', ''SN'', ''FW'', ''PCI_addr'', ''RDMA'', ''Net'', ''Port'', ''Numa'',
            ''State'', ''Link'', ''Rate'', ''SRIOV'', ''Parent_addr'', ''Tempr'', ''LnkCapWidth'',
            ''LnkStaWidth'', ''HCA_Type''],
      1 := [''Dev'', ''Desc'', ''PN'', ''SN'', ''FW'', ''RDMA'', ''Port'', ''Net'', ''Numa'', ''State'',
            ''VrtHCA'', ''PLid'', ''PGuid'', ''IbNetPref''],
      2 := [''Dev'', ''Desc'', ''PN'', ''SN'', ''FW'', ''PCI_addr'', ''RDMA'', ''Net'', ''Port'', ''Numa'',
            ''State'', ''Operstate'', ''RoCEstat''])"

definition literal :: "string \<Rightarrow> regex" where
  "literal p s j \<longleftrightarrow> j = length p \<and> take j s = p"

definition ex_compile :: "string \<Rightarrow> regex option" where
  "ex_compile p = Some (literal p)"

definition ex_dev_actv :: "pyval dict" where
  "ex_dev_actv = [(''PCI_addr'', PyStr ''0000:01:00.0''), (''State'', PyStr ''actv'')]"

definition ex_dev_down :: "pyval dict" where
  "ex_dev_down = [(''PCI_addr'', PyStr ''0000:01:00.1''), (''State'', PyStr ''down'')]"

definition ex_item :: "pyval dict list \<Rightarrow> Report_Item" where
  "ex_item ds = \<lparr> hca_info = [(''SN'', PyStr ''SN123''), (''PN'', PyStr ''MCX556A''), (''FW'', PyStr ''16.35''),
                  (''Desc'', PyStr ''ConnectX-5''), (''Dev'', PyStr ''#1'')],
     bdf_devices = ds \<rparr>"

definition ex_out :: "Report_Item list \<Rightarrow> Output" where
  "ex_out items = (Output_init ex_cfg)\<lparr>output := items\<rparr>"

definition ex_encode :: "string \<Rightarrow> string" where
  "ex_encode s = [CHR 0x22] @ s @ [CHR 0x22]"

section \<open>Properties of the assembly\<close>

lemma insert_after_parent_closed:
  assumes "bdf v \<noteq> vfParent v"
  shows "insert_after_parent v (length pre) (pre @ suf) = Some (pre @ ins_after v suf)"
proof (induction suf arbitrary: pre)
  case Nil
  show ?case by (subst insert_after_parent.simps) (simp add: ins_after_def)
next
  case (Cons d suf)
  show ?case
  proof (cases "bdf d = vfParent v")
    case True
    have "insert_after_parent v (length pre) (pre @ d # suf)
        = insert_after_parent v (length pre + 1) ((pre @ [d]) @ v # suf)"
      by (subst insert_after_parent.simps) (simp add: True list_insert_def)
    also have "\<dots> = insert_after_parent v (length (pre @ [d, v])) ((pre @ [d, v]) @ suf)"
      using assms by (subst insert_after_parent.simps) (simp add: nth_append)
    also have "\<dots> = Some ((pre @ [d, v]) @ ins_after v suf)"
      by (rule Cons.IH)
    finally show ?thesis by (simp add: True ins_after_def)
  next
    case False
    have "insert_after_parent v (length pre) (pre @ d # suf)
        = insert_after_parent v (length (pre @ [d])) ((pre @ [d]) @ suf)"
      by (subst insert_after_parent.simps) (simp add: False)
    also have "\<dots> = Some ((pre @ [d]) @ ins_after v suf)"
      by (rule Cons.IH)
    finally show ?thesis by (simp add: False ins_after_def)
  qed
qed

lemma is_pf_not_vf: "is_pf cfg d \<Longrightarrow> \<not> is_vf cfg d"
  by (auto simp: is_pf_def is_vf_def)

lemma add_bdf_dev_pf: "\<not> is_vf cfg d \<Longrightarrow> add_bdf_dev cfg d h = Some (h\<lparr>bfd_devices := bfd_devices h @ [d]\<rparr>)"
  by (simp add: add_bdf_dev_def is_vf_def)

lemma add_bdf_dev_vf:
  "is_vf cfg v \<Longrightarrow> vfParent v \<noteq> ''-'' \<Longrightarrow> bdf v \<noteq> vfParent v \<Longrightarrow>
   add_bdf_dev cfg v h = Some (h\<lparr>bfd_devices := ins_after v (bfd_devices h)\<rparr>)"
  using insert_after_parent_closed [of v "[]" "bfd_devices h"]
  by (simp add: add_bdf_dev_def is_vf_def)

lemma add_to_found_pf:
  "\<not> is_vf cfg d \<Longrightarrow> add_to_found cfg d hs = Some (sn d \<in> hca_sn ` set hs, map (join_sn d) hs)"
  by (induction hs) (auto simp: add_bdf_dev_pf join_sn_def)

lemma join_sn_sn [simp]: "hca_sn (join_sn d h) = hca_sn h"
  by (simp add: join_sn_def)

lemma join_sn_idx [simp]: "hca_index_raw (join_sn d h) = hca_index_raw h"
  by (simp add: join_sn_def)

lemma map_join_sn_id: "sn d \<notin> hca_sn ` set hs \<Longrightarrow> map (join_sn d) hs = hs"
  by (induction hs) (auto simp: join_sn_def)

lemma map_hca_sn_join [simp]: "map hca_sn (map (join_sn d) hs) = map hca_sn hs"
  by (induction hs) simp_all

lemma map_idx_join [simp]: "map hca_index_raw (map (join_sn d) hs) = map hca_index_raw hs"
  by (induction hs) simp_all

lemma image_hca_sn_join [simp]: "hca_sn ` join_sn d ` set hs = hca_sn ` set hs"
  by (simp add: image_image)

lemma founded_join:
  assumes "founded cfg seen h" "is_pf cfg d"
  shows "founded cfg (seen @ [d]) (join_sn d h)"
  using assms by (auto simp: founded_def join_sn_def)

lemma founded_skip:
  assumes "founded cfg seen h" "\<not> is_pf cfg d \<or> sn d \<noteq> hca_sn h"
  shows "founded cfg (seen @ [d]) h"
  using assms by (auto simp: founded_def)

lemma founded_new:
  assumes "is_pf cfg d" "\<forall>e\<in>set seen. is_pf cfg e \<longrightarrow> sn e \<noteq> sn d"
    and "MlnxHCA_init cfg d = Inr h"
  shows "founded cfg (seen @ [d]) (h\<lparr>hca_index_raw := Some n\<rparr>)"
  using assms by (auto simp: founded_def MlnxHCA_init_def filter_empty_conv)

lemma handle_pf_inv:
  assumes "pf_inv cfg seen hcas"
  shows "\<exists>hcas'. handle_pf cfg hcas d = Some (Inr hcas') \<and> pf_inv cfg (seen @ [d]) hcas'"
proof -
  from assms have dist: "distinct (map hca_sn hcas)"
    and fnd: "\<And>h. h \<in> set hcas \<Longrightarrow> founded cfg seen h"
    and idx: "map hca_index_raw hcas = map Some [1..<Suc (length hcas)]"
    and cov: "\<And>e. e \<in> set seen \<Longrightarrow> is_pf cfg e \<Longrightarrow> sn e \<in> hca_sn ` set hcas"
    by (auto simp: pf_inv_def)
  show ?thesis
  proof (cases "is_pf cfg d")
    case False
    have "handle_pf cfg hcas d = Some (Inr hcas)"
      using False by (simp add: handle_pf_def)
    moreover have "\<And>h. h \<in> set hcas \<Longrightarrow> founded cfg (seen @ [d]) h"
      using fnd False by (blast intro: founded_skip)
    then have "pf_inv cfg (seen @ [d]) hcas"
      using dist idx cov False by (auto simp: pf_inv_def)
    ultimately show ?thesis by blast
  next
    case pf: True
    then have nvf: "\<not> is_vf cfg d" by (rule is_pf_not_vf)
    show ?thesis
    proof (cases "sn d \<in> hca_sn ` set hcas")
      case True
      let ?hs = "map (join_sn d) hcas"
      have "handle_pf cfg hcas d = Some (Inr ?hs)"
        using pf True by (simp add: handle_pf_def add_to_found_pf [OF nvf])
      moreover have "\<And>h. h \<in> set ?hs \<Longrightarrow> founded cfg (seen @ [d]) h"
      proof -
        fix h assume "h \<in> set ?hs"
        then obtain g where g: "g \<in> set hcas" "h = join_sn d g" by auto
        show "founded cfg (seen @ [d]) h"
        proof (cases "sn d = hca_sn g")
          case True
          then show ?thesis using founded_join [OF fnd [OF g(1)] pf] g(2) by simp
        next
          case False
          then have "join_sn d g = g" by (simp add: join_sn_def)
          then show ?thesis using founded_skip [OF fnd [OF g(1)]] False g(2) by simp
        qed
      qed
      then have "\<forall>h\<in>set ?hs. founded cfg (seen @ [d]) h" by blast
      moreover have "\<forall>e\<in>set (seen @ [d]). is_pf cfg e \<longrightarrow> sn e \<in> hca_sn ` set ?hs"
        using cov True by auto
      moreover have "distinct (map hca_sn ?hs)"
        using dist by (simp only: map_hca_sn_join)
      moreover have "map hca_index_raw ?hs = map Some [1..<Suc (length ?hs)]"
        using idx by (simp only: map_idx_join length_map)
      ultimately show ?thesis
        unfolding pf_inv_def by blast
    next
      case False
      obtain h where h: "MlnxHCA_init cfg d = Inr h" "hca_sn h = sn d"
        using pf by (simp add: MlnxHCA_init_def)
      let ?new = "h\<lparr>hca_index_raw := Some (length hcas + 1)\<rparr>"
      have run: "handle_pf cfg hcas d = Some (Inr (hcas @ [?new]))"
        using pf False h by (simp add: handle_pf_def add_to_found_pf [OF nvf] map_join_sn_id)
      have fresh: "\<forall>e\<in>set seen. is_pf cfg e \<longrightarrow> sn e \<noteq> sn d"
        using cov False by metis
      have "founded cfg (seen @ [d]) ?new"
        by (rule founded_new [OF pf fresh h(1)])
      moreover have "\<And>g. g \<in> set hcas \<Longrightarrow> founded cfg (seen @ [d]) g"
      proof -
        fix g assume g: "g \<in> set hcas"
        then have "sn d \<noteq> hca_sn g" using False by auto
        then show "founded cfg (seen @ [d]) g" using founded_skip [OF fnd [OF g]] by simp
      qed
      ultimately have f: "\<forall>g\<in>set (hcas @ [?new]). founded cfg (seen @ [d]) g" by auto
      have d2: "distinct (map hca_sn (hcas @ [?new]))"
        using dist False h(2) by auto
      have i2: "map hca_index_raw (hcas @ [?new]) = map Some [1..<Suc (length (hcas @ [?new]))]"
        using idx by (simp del: upt_Suc add: upt_Suc_append)
      have c2: "\<forall>e\<in>set (seen @ [d]). is_pf cfg e \<longrightarrow> sn e \<in> hca_sn ` set (hcas @ [?new])"
        using cov h(2) by auto
      have "pf_inv cfg (seen @ [d]) (hcas @ [?new])"
        using f d2 i2 c2 unfolding pf_inv_def by blast
      with run show ?thesis by blast
    qed
  qed
qed

lemma handle_all_pfs_inv:
  "pf_inv cfg seen hcas \<Longrightarrow>
   \<exists>hcas'. handle_all_pfs cfg ds hcas = Some (Inr hcas') \<and> pf_inv cfg (seen @ ds) hcas'"
proof (induction ds arbitrary: seen hcas)
  case Nil
  then show ?case by simp
next
  case (Cons d ds)
  from handle_pf_inv [OF Cons.prems, of d] obtain h1 where
    h1: "handle_pf cfg hcas d = Some (Inr h1)" "pf_inv cfg (seen @ [d]) h1" by blast
  from Cons.IH [OF h1(2)] h1(1) show ?case by simp
qed

lemma pf_inv_empty: "pf_inv cfg [] []"
  by (simp add: pf_inv_def)

lemma ins_after_Nil [simp]: "ins_after v [] = []"
  by (simp add: ins_after_def)

lemma ins_after_Cons [simp]:
  "ins_after v (d # ds) = (if bdf d = vfParent v then d # v # ins_after v ds else d # ins_after v ds)"
  by (simp add: ins_after_def)

lemma insert_after_parent_result:
  assumes "insert_after_parent v0 i0 ds0 = Some r0"
  shows "r0 = take i0 ds0 @ ins_after v0 (drop i0 ds0) \<and>
   (bdf v0 = vfParent v0 \<longrightarrow> (\<forall>j. i0 \<le> j \<and> j < length ds0 \<longrightarrow> bdf (ds0 ! j) \<noteq> vfParent v0))"
proof (rule insert_after_parent.raw_induct [where P = "\<lambda>v i ds r. r = take i ds @ ins_after v (drop i ds) \<and>
   (bdf v = vfParent v \<longrightarrow> (\<forall>j. i \<le> j \<and> j < length ds \<longrightarrow> bdf (ds ! j) \<noteq> vfParent v))", OF _ assms])
  fix f v i ds r
  assume 1: "\<And>i ds b y. f i ds b = Some y \<Longrightarrow> y = take ds b @ ins_after i (drop ds b) \<and>
   (bdf i = vfParent i \<longrightarrow> (\<forall>j. ds \<le> j \<and> j < length b \<longrightarrow> bdf (b ! j) \<noteq> vfParent i))"
    "(if i < length ds
      then if bdf (ds ! i) = vfParent v
           then f v (i + 1) (list_insert (i + 1) v ds)
           else f v (i + 1) ds
      else Some ds) = Some r"
  show "r = take i ds @ ins_after v (drop i ds) \<and>
   (bdf v = vfParent v \<longrightarrow> (\<forall>j. i \<le> j \<and> j < length ds \<longrightarrow> bdf (ds ! j) \<noteq> vfParent v))"
  proof (cases "i < length ds")
    case False
    with 1(2) show ?thesis by auto
  next
    case lt: True
    then have dr: "drop i ds = ds ! i # drop (Suc i) ds"
      by (simp add: Cons_nth_drop_Suc)
    have tk: "take (Suc i) ds = take i ds @ [ds ! i]"
      using lt by (simp add: take_Suc_conv_app_nth)
    show ?thesis
    proof (cases "bdf (ds ! i) = vfParent v")
      case True
      let ?ds' = "list_insert (i + 1) v ds"
      from 1(2) lt True have "f v (i + 1) ?ds' = Some r" by simp
      from 1(1) [OF this] have r: "r = take (i + 1) ?ds' @ ins_after v (drop (i + 1) ?ds')"
        and nv: "bdf v = vfParent v \<longrightarrow> (\<forall>j. i + 1 \<le> j \<and> j < length ?ds' \<longrightarrow> bdf (?ds' ! j) \<noteq> vfParent v)"
        by blast+
      have len: "length (take (Suc i) ds) = Suc i" using lt by simp
      have at: "?ds' ! (i + 1) = v"
        unfolding list_insert_def using len by (simp add: nth_append)
      have "i + 1 < length ?ds'" using lt by (simp add: list_insert_def)
      with nv at have ne: "bdf v \<noteq> vfParent v" by (metis le_refl)
      have "take (i + 1) ?ds' = take (Suc i) ds"
        unfolding list_insert_def using len by simp
      moreover have "drop (i + 1) ?ds' = v # drop (Suc i) ds"
        unfolding list_insert_def using len by simp
      ultimately have "r = take (Suc i) ds @ ins_after v (v # drop (Suc i) ds)"
        using r by simp
      then have "r = take i ds @ ins_after v (drop i ds)"
        using ne True by (simp add: dr tk)
      with ne show ?thesis by simp
    next
      case False
      from 1(2) lt False have "f v (i + 1) ds = Some r" by simp
      from 1(1) [OF this] have r: "r = take (i + 1) ds @ ins_after v (drop (i + 1) ds)"
        and nv: "bdf v = vfParent v \<longrightarrow> (\<forall>j. i + 1 \<le> j \<and> j < length ds \<longrightarrow> bdf (ds ! j) \<noteq> vfParent v)"
        by blast+
      have "r = take i ds @ ins_after v (drop i ds)"
        using r False by (simp add: dr tk)
      moreover have "bdf v = vfParent v \<longrightarrow> (\<forall>j. i \<le> j \<and> j < length ds \<longrightarrow> bdf (ds ! j) \<noteq> vfParent v)"
      proof (intro impI allI)
        fix j assume a: "bdf v = vfParent v" "i \<le> j \<and> j < length ds"
        show "bdf (ds ! j) \<noteq> vfParent v"
        proof (cases "j = i")
          case True
          with False show ?thesis by simp
        next
          case False
          with a have "i + 1 \<le> j \<and> j < length ds" by simp
          with nv a(1) show ?thesis by blast
        qed
      qed
      ultimately show ?thesis by blast
    qed
  qed
qed

lemma add_bdf_dev_result:
  assumes "add_bdf_dev cfg v h = Some h'"
  shows "h' = h\<lparr>bfd_devices :=
            (if is_vf cfg v \<and> vfParent v \<noteq> ''-'' then ins_after v (bfd_devices h)
             else bfd_devices h @ [v])\<rparr>"
proof (cases "is_vf cfg v \<and> vfParent v \<noteq> ''-''")
  case True
  with assms obtain r where r: "insert_after_parent v 0 (bfd_devices h) = Some r"
    and h': "h' = h\<lparr>bfd_devices := r\<rparr>"
    by (auto simp: add_bdf_dev_def is_vf_def)
  from insert_after_parent_result [OF r] have "r = ins_after v (bfd_devices h)" by simp
  with h' True show ?thesis by simp
next
  case False
  with assms show ?thesis by (auto simp: add_bdf_dev_def is_vf_def)
qed

lemma get_hca_by_sn_Some:
  "get_hca_by_sn s hs = Some i \<Longrightarrow> i < length hs \<and> hca_sn (hs ! i) = s"
  by (induction hs arbitrary: i) (auto split: if_splits)

lemma get_hca_by_sn_None: "get_hca_by_sn s hs = None \<longleftrightarrow> s \<notin> hca_sn ` set hs"
  by (induction hs) auto

lemma get_hca_by_sn_cong:
  "map hca_sn hs = map hca_sn hs' \<Longrightarrow> get_hca_by_sn s hs = get_hca_by_sn s hs'"
proof (induction hs arbitrary: hs')
  case Nil
  then show ?case by simp
next
  case (Cons h hs)
  then obtain g gs where "hs' = g # gs" by (cases hs') auto
  with Cons show ?case by auto
qed

lemma get_hca_by_sn_distinct:
  "distinct (map hca_sn hs) \<Longrightarrow> k < length hs \<Longrightarrow> get_hca_by_sn (hca_sn (hs ! k)) hs = Some k"
proof (induction hs arbitrary: k)
  case Nil
  then show ?case by simp
next
  case (Cons h hs)
  show ?case
  proof (cases k)
    case 0
    then show ?thesis by simp
  next
    case (Suc m)
    with Cons.prems have "hca_sn (hs ! m) \<noteq> hca_sn h" by (auto simp: image_iff) (metis nth_mem)
    with Cons Suc show ?thesis by simp
  qed
qed

lemma filter_ins_after: "is_vf cfg v \<Longrightarrow>
  filter (\<lambda>d. \<not> is_vf cfg d) (ins_after v ds) = filter (\<lambda>d. \<not> is_vf cfg d) ds"
  by (induction ds) auto

lemma hd_ins_after: "ds \<noteq> [] \<Longrightarrow> ins_after v ds \<noteq> [] \<and> hd (ins_after v ds) = hd ds"
  by (cases ds) auto

lemma set_ins_after:
  "set (ins_after v ds) = set ds \<union> (if vfParent v \<in> bdf ` set ds then {v} else {})"
  by (induction ds) auto

lemma vf_runs_ins_after:
  assumes "is_vf cfg v" "\<forall>d\<in>set ds. bdf d = vfParent v \<longrightarrow> \<not> is_vf cfg d" "vf_runs cfg cur ds"
  shows "vf_runs cfg cur (ins_after v ds)"
  using assms(2,3) assms(1) by (induction ds arbitrary: cur) auto

lemma vf_runs_no_vf: "\<forall>d\<in>set ds. \<not> is_vf cfg d \<Longrightarrow> vf_runs cfg cur ds"
  by (induction ds arbitrary: cur) auto

lemma vf_runs_index:
  assumes "vf_runs cfg cur ds" "j < length ds" "is_vf cfg (ds ! j)"
  shows "(\<exists>i<j. \<not> is_vf cfg (ds ! i) \<and> bdf (ds ! i) = vfParent (ds ! j) \<and>
            (\<forall>k. i < k \<and> k < j \<longrightarrow> is_vf cfg (ds ! k) \<and> vfParent (ds ! k) = vfParent (ds ! j))) \<or>
         (cur = Some (vfParent (ds ! j)) \<and>
            (\<forall>k<j. is_vf cfg (ds ! k) \<and> vfParent (ds ! k) = vfParent (ds ! j)))"
  using assms
proof (induction ds arbitrary: cur j)
  case Nil
  then show ?case by simp
next
  case (Cons d ds)
  show ?case
  proof (cases j)
    case 0
    with Cons.prems show ?thesis by (auto split: if_splits)
  next
    case (Suc m)
    with Cons.prems have m: "m < length ds" "is_vf cfg (ds ! m)" by auto
    let ?B = "vfParent (ds ! m)"
    show ?thesis
    proof (cases "is_vf cfg d")
      case True
      with Cons.prems have c: "cur = Some (vfParent d)" "vf_runs cfg cur ds" by auto
      from Cons.IH [OF c(2) m] show ?thesis
      proof
        assume "\<exists>i<m. \<not> is_vf cfg (ds ! i) \<and> bdf (ds ! i) = ?B \<and>
            (\<forall>k. i < k \<and> k < m \<longrightarrow> is_vf cfg (ds ! k) \<and> vfParent (ds ! k) = ?B)"
        then obtain i where i: "i < m" "\<not> is_vf cfg (ds ! i)" "bdf (ds ! i) = ?B"
          "\<forall>k. i < k \<and> k < m \<longrightarrow> is_vf cfg (ds ! k) \<and> vfParent (ds ! k) = ?B" by blast
        have "\<forall>k. Suc i < k \<and> k < Suc m \<longrightarrow>
            is_vf cfg ((d # ds) ! k) \<and> vfParent ((d # ds) ! k) = ?B"
        proof (intro allI impI)
          fix k assume k: "Suc i < k \<and> k < Suc m"
          then obtain k' where "k = Suc k'" by (cases k) auto
          with k i(4) show "is_vf cfg ((d # ds) ! k) \<and> vfParent ((d # ds) ! k) = ?B" by simp
        qed
        with i(1-3) have "\<exists>i<Suc m. \<not> is_vf cfg ((d # ds) ! i) \<and> bdf ((d # ds) ! i) = ?B \<and>
            (\<forall>k. i < k \<and> k < Suc m \<longrightarrow> is_vf cfg ((d # ds) ! k) \<and> vfParent ((d # ds) ! k) = ?B)"
          by (intro exI [of _ "Suc i"]) simp
        with Suc show ?thesis by simp
      next
        assume a: "cur = Some ?B \<and> (\<forall>k<m. is_vf cfg (ds ! k) \<and> vfParent (ds ! k) = ?B)"
        have "\<forall>k<Suc m. is_vf cfg ((d # ds) ! k) \<and> vfParent ((d # ds) ! k) = ?B"
        proof (intro allI impI)
          fix k assume k: "k < Suc m"
          show "is_vf cfg ((d # ds) ! k) \<and> vfParent ((d # ds) ! k) = ?B"
          proof (cases k)
            case 0
            with True c a show ?thesis by simp
          next
            case (Suc k')
            with k a show ?thesis by simp
          qed
        qed
        with a Suc show ?thesis by simp
      qed
    next
      case False
      with Cons.prems have c: "vf_runs cfg (Some (bdf d)) ds" by auto
      from Cons.IH [OF c m] show ?thesis
      proof
        assume "\<exists>i<m. \<not> is_vf cfg (ds ! i) \<and> bdf (ds ! i) = ?B \<and>
            (\<forall>k. i < k \<and> k < m \<longrightarrow> is_vf cfg (ds ! k) \<and> vfParent (ds ! k) = ?B)"
        then obtain i where i: "i < m" "\<not> is_vf cfg (ds ! i)" "bdf (ds ! i) = ?B"
          "\<forall>k. i < k \<and> k < m \<longrightarrow> is_vf cfg (ds ! k) \<and> vfParent (ds ! k) = ?B" by blast
        have "\<forall>k. Suc i < k \<and> k < Suc m \<longrightarrow>
            is_vf cfg ((d # ds) ! k) \<and> vfParent ((d # ds) ! k) = ?B"
        proof (intro allI impI)
          fix k assume k: "Suc i < k \<and> k < Suc m"
          then obtain k' where "k = Suc k'" by (cases k) auto
          with k i(4) show "is_vf cfg ((d # ds) ! k) \<and> vfParent ((d # ds) ! k) = ?B" by simp
        qed
        with i(1-3) have "\<exists>i<Suc m. \<not> is_vf cfg ((d # ds) ! i) \<and> bdf ((d # ds) ! i) = ?B \<and>
            (\<forall>k. i < k \<and> k < Suc m \<longrightarrow> is_vf cfg ((d # ds) ! k) \<and> vfParent ((d # ds) ! k) = ?B)"
          by (intro exI [of _ "Suc i"]) simp
        with Suc show ?thesis by simp
      next
        assume a: "Some (bdf d) = Some ?B \<and> (\<forall>k<m. is_vf cfg (ds ! k) \<and> vfParent (ds ! k) = ?B)"
        have "\<forall>k. 0 < k \<and> k < Suc m \<longrightarrow>
            is_vf cfg ((d # ds) ! k) \<and> vfParent ((d # ds) ! k) = ?B"
        proof (intro allI impI)
          fix k assume k: "0 < k \<and> k < Suc m"
          then obtain k' where "k = Suc k'" by (cases k) auto
          with k a show "is_vf cfg ((d # ds) ! k) \<and> vfParent ((d # ds) ! k) = ?B" by simp
        qed
        with a False have "\<exists>i<Suc m. \<not> is_vf cfg ((d # ds) ! i) \<and> bdf ((d # ds) ! i) = ?B \<and>
            (\<forall>k. i < k \<and> k < Suc m \<longrightarrow> is_vf cfg ((d # ds) ! k) \<and> vfParent ((d # ds) ! k) = ?B)"
          by (intro exI [of _ 0]) simp
        with Suc show ?thesis by simp
      qed
    qed
  qed
qed

lemma same_adapter_refl: "same_adapter cfg h h"
  by (simp add: same_adapter_def)

lemma same_adapter_trans: "same_adapter cfg a b \<Longrightarrow> same_adapter cfg b c \<Longrightarrow> same_adapter cfg a c"
  unfolding same_adapter_def by auto

lemma same_adapter_sn: "same_adapter cfg h h' \<Longrightarrow> hca_sn h' = hca_sn h"
  unfolding same_adapter_def by simp

lemma same_adapter_add:
  assumes "is_vf cfg v" "add_bdf_dev cfg v h = Some h'"
  shows "same_adapter cfg h h'"
proof -
  from add_bdf_dev_result [OF assms(2)]
  have h': "h' = h\<lparr>bfd_devices := (if vfParent v \<noteq> ''-'' then ins_after v (bfd_devices h)
                                     else bfd_devices h @ [v])\<rparr>"
    using assms(1) by simp
  show ?thesis
  proof (cases "vfParent v \<noteq> ''-''")
    case True
    with h' have "h' = h\<lparr>bfd_devices := ins_after v (bfd_devices h)\<rparr>" by simp
    then show ?thesis
      using assms(1) by (auto simp: same_adapter_def filter_ins_after hd_ins_after set_ins_after)
  next
    case False
    with h' have "h' = h\<lparr>bfd_devices := bfd_devices h @ [v]\<rparr>" by simp
    then show ?thesis
      using assms(1) by (auto simp: same_adapter_def)
  qed
qed

lemma link_vf_cases:
  "link_vf cfg v ps hcas =
     (case find (\<lambda>p. vfParent v = bdf p) ps of
        None \<Rightarrow> Some (Inr hcas)
      | Some p \<Rightarrow> (case get_hca_by_sn (sn p) hcas of
                    None \<Rightarrow> Some (Inl PyException)
                  | Some i \<Rightarrow> map_option (\<lambda>h'. Inr (hcas[i := h'])) (add_bdf_dev cfg v (hcas ! i))))"
  by (induction ps) (auto split: option.splits)

lemma list_all2_same_update:
  assumes "i < length hcas" "same_adapter cfg (hcas ! i) h'"
  shows "list_all2 (same_adapter cfg) hcas (hcas[i := h'])"
proof -
  have "list_all2 (same_adapter cfg) hcas hcas"
    by (simp add: list_all2_refl same_adapter_refl)
  from list_all2_update_cong [OF this assms(2), of i] show ?thesis by simp
qed

lemma handle_vf_same:
  assumes "handle_vf cfg devs hcas v = Some (Inr hcas')"
  shows "list_all2 (same_adapter cfg) hcas hcas'"
proof (cases "is_vf cfg v")
  case False
  with assms have "hcas' = hcas" by (simp add: handle_vf_def)
  then show ?thesis by (simp add: list_all2_refl same_adapter_refl)
next
  case True
  with assms have l: "link_vf cfg v devs hcas = Some (Inr hcas')" by (simp add: handle_vf_def)
  show ?thesis
  proof (cases "find (\<lambda>p. vfParent v = bdf p) devs")
    case None
    with l have "hcas' = hcas" by (simp add: link_vf_cases)
    then show ?thesis by (simp add: list_all2_refl same_adapter_refl)
  next
    case (Some p)
    with l obtain i h' where i: "get_hca_by_sn (sn p) hcas = Some i"
      and a: "add_bdf_dev cfg v (hcas ! i) = Some h'" and h: "hcas' = hcas[i := h']"
      by (auto simp: link_vf_cases split: option.splits)
    from get_hca_by_sn_Some [OF i] have "i < length hcas" by simp
    with same_adapter_add [OF True a] h show ?thesis by (simp add: list_all2_same_update)
  qed
qed

lemma handle_all_vfs_same:
  "handle_all_vfs cfg devs ds hcas = Some (Inr hcas') \<Longrightarrow> list_all2 (same_adapter cfg) hcas hcas'"
proof (induction ds arbitrary: hcas)
  case Nil
  then show ?case by (simp add: list_all2_refl same_adapter_refl)
next
  case (Cons d ds)
  from Cons.prems obtain h1 where h1: "handle_vf cfg devs hcas d = Some (Inr h1)"
    and r: "handle_all_vfs cfg devs ds h1 = Some (Inr hcas')"
    by (auto split: option.splits sum.splits)
  from handle_vf_same [OF h1] Cons.IH [OF r] show ?case
    by (rule list_all2_trans [rotated]) (rule same_adapter_trans)
qed

lemma same_map_sn: "list_all2 (same_adapter cfg) hs hs' \<Longrightarrow> map hca_sn hs' = map hca_sn hs"
  by (induction rule: list_all2_induct) (auto simp: same_adapter_sn)

lemma pf_placed_same:
  assumes "pf_placed cfg devs hcas" "list_all2 (same_adapter cfg) hcas hcas'"
  shows "pf_placed cfg devs hcas'"
proof -
  have len: "length hcas' = length hcas" using assms(2) by (simp add: list_all2_lengthD)
  have g: "\<And>s. get_hca_by_sn s hcas' = get_hca_by_sn s hcas"
    using same_map_sn [OF assms(2)] by (rule get_hca_by_sn_cong)
  show ?thesis
    unfolding pf_placed_def
  proof (intro ballI impI)
    fix p assume "p \<in> set devs" "is_pf cfg p"
    with assms(1) obtain k where k: "k < length hcas" "get_hca_by_sn (sn p) hcas = Some k"
      "p \<in> set (bfd_devices (hcas ! k))" unfolding pf_placed_def by blast
    from assms(2) k(1) have "same_adapter cfg (hcas ! k) (hcas' ! k)" by (simp add: list_all2_nthD)
    then have "set (bfd_devices (hcas ! k)) \<subseteq> set (bfd_devices (hcas' ! k))"
      by (simp add: same_adapter_def)
    with k len g show "\<exists>k<length hcas'. get_hca_by_sn (sn p) hcas' = Some k \<and> p \<in> set (bfd_devices (hcas' ! k))"
      by auto
  qed
qed

lemma wf_vf_not_self:
  assumes "wf_parents cfg devs" "v \<in> set devs" "is_vf cfg v"
  shows "bdf v \<noteq> vfParent v" "vfParent v \<noteq> ''-''"
  using assms is_pf_not_vf unfolding wf_parents_def by blast+

lemma handle_vf_inv:
  assumes wf: "wf_parents cfg devs" and v: "v \<in> set devs"
    and pl: "pf_placed cfg devs hcas" and inv: "vf_inv cfg devs hcas"
  shows "\<exists>hcas'. handle_vf cfg devs hcas v = Some (Inr hcas') \<and> vf_inv cfg devs hcas' \<and>
           (is_vf cfg v \<and> vfParent v \<in> bdf ` set devs \<longrightarrow>
              (\<exists>k<length hcas'. v \<in> set (bfd_devices (hcas' ! k))))"
proof (cases "is_vf cfg v")
  case False
  then show ?thesis using inv by (simp add: handle_vf_def)
next
  case vf: True
  show ?thesis
  proof (cases "find (\<lambda>p. vfParent v = bdf p) devs")
    case None
    then have "vfParent v \<notin> bdf ` set devs" by (auto simp: find_None_iff)
    moreover have "handle_vf cfg devs hcas v = Some (Inr hcas)"
      using vf None by (simp add: handle_vf_def link_vf_cases)
    ultimately show ?thesis using inv by simp
  next
    case (Some p)
    then have p: "p \<in> set devs" "vfParent v = bdf p"
      by (auto simp: find_Some_iff)
    with wf v vf have ppf: "is_pf cfg p" unfolding wf_parents_def by metis
    with pl p(1) obtain i where i: "i < length hcas" "get_hca_by_sn (sn p) hcas = Some i"
      "p \<in> set (bfd_devices (hcas ! i))" unfolding pf_placed_def by blast
    let ?ds = "bfd_devices (hcas ! i)"
    let ?h' = "(hcas ! i)\<lparr>bfd_devices := ins_after v ?ds\<rparr>"
    let ?hcas' = "hcas[i := ?h']"
    have add: "add_bdf_dev cfg v (hcas ! i) = Some ?h'"
      using wf_vf_not_self [OF wf v vf] vf by (simp add: add_bdf_dev_vf)
    have run: "handle_vf cfg devs hcas v = Some (Inr ?hcas')"
      using vf Some i(2) add by (simp add: handle_vf_def link_vf_cases)
    have same: "list_all2 (same_adapter cfg) hcas ?hcas'"
      by (rule handle_vf_same [OF run])
    have g: "\<And>s. get_hca_by_sn s ?hcas' = get_hca_by_sn s hcas"
      using same_map_sn [OF same] by (rule get_hca_by_sn_cong)
    have tg: "\<And>w. vf_target devs ?hcas' w = vf_target devs hcas w"
      by (simp add: vf_target_def g split: option.splits)
    have vin: "v \<in> set (ins_after v ?ds)"
      using i(3) p(2) by (auto simp: set_ins_after)
    have sub: "set ?ds \<subseteq> set devs" using inv i(1) by (simp add: vf_inv_def)
    have "\<forall>d\<in>set ?ds. bdf d = vfParent v \<longrightarrow> \<not> is_vf cfg d"
      using sub wf v vf is_pf_not_vf unfolding wf_parents_def by blast
    moreover have "vf_runs cfg None ?ds" using inv i(1) by (simp add: vf_inv_def)
    ultimately have runs: "vf_runs cfg None (ins_after v ?ds)"
      using vf by (simp add: vf_runs_ins_after)
    have tv: "vf_target devs hcas v = Some i"
      using Some i(2) by (simp add: vf_target_def)
    have "vf_inv cfg devs ?hcas'"
      unfolding vf_inv_def
    proof (intro allI impI)
      fix k assume k: "k < length ?hcas'"
      show "set (bfd_devices (?hcas' ! k)) \<subseteq> set devs \<and>
            vf_runs cfg None (bfd_devices (?hcas' ! k)) \<and>
            (\<forall>w\<in>set (bfd_devices (?hcas' ! k)). is_vf cfg w \<longrightarrow> vf_target devs ?hcas' w = Some k)"
      proof (cases "k = i")
        case True
        then have b: "bfd_devices (?hcas' ! k) = ins_after v ?ds" using i(1) by simp
        have "\<forall>w\<in>set (ins_after v ?ds). is_vf cfg w \<longrightarrow> vf_target devs hcas w = Some i"
          using inv i(1) tv unfolding vf_inv_def by (auto simp: set_ins_after split: if_splits)
        with b True runs sub v show ?thesis by (auto simp: tg set_ins_after split: if_splits)
      next
        case False
        then have "?hcas' ! k = hcas ! k" by simp
        with inv k show ?thesis by (simp add: vf_inv_def tg)
      qed
    qed
    moreover have "\<exists>k<length ?hcas'. v \<in> set (bfd_devices (?hcas' ! k))"
      using i(1) vin by (intro exI [of _ i]) simp
    ultimately show ?thesis using run by blast
  qed
qed

lemma handle_all_vfs_inv:
  assumes wf: "wf_parents cfg devs"
  shows "set ds \<subseteq> set devs \<Longrightarrow> pf_placed cfg devs hcas \<Longrightarrow> vf_inv cfg devs hcas \<Longrightarrow>
    \<exists>hcas'. handle_all_vfs cfg devs ds hcas = Some (Inr hcas') \<and> vf_inv cfg devs hcas' \<and>
       (\<forall>v\<in>set ds. is_vf cfg v \<and> vfParent v \<in> bdf ` set devs \<longrightarrow>
          (\<exists>k<length hcas'. v \<in> set (bfd_devices (hcas' ! k))))"
proof (induction ds arbitrary: hcas)
  case Nil
  then show ?case by simp
next
  case (Cons d ds)
  from Cons.prems(1) have d: "d \<in> set devs" and sub: "set ds \<subseteq> set devs" by auto
  from handle_vf_inv [OF wf d Cons.prems(2,3)] obtain h1 where
    h1: "handle_vf cfg devs hcas d = Some (Inr h1)" "vf_inv cfg devs h1"
    "is_vf cfg d \<and> vfParent d \<in> bdf ` set devs \<longrightarrow> (\<exists>k<length h1. d \<in> set (bfd_devices (h1 ! k)))"
    by blast
  have pl1: "pf_placed cfg devs h1"
    by (rule pf_placed_same [OF Cons.prems(2) handle_vf_same [OF h1(1)]])
  from Cons.IH [OF sub pl1 h1(2)] obtain h2 where
    h2: "handle_all_vfs cfg devs ds h1 = Some (Inr h2)" "vf_inv cfg devs h2"
    "\<forall>v\<in>set ds. is_vf cfg v \<and> vfParent v \<in> bdf ` set devs \<longrightarrow>
          (\<exists>k<length h2. v \<in> set (bfd_devices (h2 ! k)))" by blast
  have same: "list_all2 (same_adapter cfg) h1 h2" by (rule handle_all_vfs_same [OF h2(1)])
  have "is_vf cfg d \<and> vfParent d \<in> bdf ` set devs \<longrightarrow> (\<exists>k<length h2. d \<in> set (bfd_devices (h2 ! k)))"
  proof
    assume "is_vf cfg d \<and> vfParent d \<in> bdf ` set devs"
    with h1(3) obtain k where k: "k < length h1" "d \<in> set (bfd_devices (h1 ! k))" by blast
    from same k(1) have "same_adapter cfg (h1 ! k) (h2 ! k)" by (simp add: list_all2_nthD)
    then have "set (bfd_devices (h1 ! k)) \<subseteq> set (bfd_devices (h2 ! k))" by (simp add: same_adapter_def)
    moreover have "length h2 = length h1" using same by (simp add: list_all2_lengthD)
    ultimately show "\<exists>k<length h2. d \<in> set (bfd_devices (h2 ! k))" using k by auto
  qed
  with h1(1) h2 show ?case by auto
qed

lemma pf_inv_placed:
  assumes "pf_inv cfg devs hcas"
  shows "pf_placed cfg devs hcas"
  unfolding pf_placed_def
proof (intro ballI impI)
  fix p assume p: "p \<in> set devs" "is_pf cfg p"
  with assms have "sn p \<in> hca_sn ` set hcas" by (simp add: pf_inv_def)
  then obtain k where k: "k < length hcas" "hca_sn (hcas ! k) = sn p"
    by (auto simp: in_set_conv_nth)
  from assms have "distinct (map hca_sn hcas)" by (simp add: pf_inv_def)
  from get_hca_by_sn_distinct [OF this k(1)] k(2)
  have g: "get_hca_by_sn (sn p) hcas = Some k" by simp
  from assms k(1) have "founded cfg devs (hcas ! k)" by (simp add: pf_inv_def)
  then have "bfd_devices (hcas ! k) = filter (\<lambda>d. is_pf cfg d \<and> sn d = hca_sn (hcas ! k)) devs"
    by (simp add: founded_def)
  with p k(2) have "p \<in> set (bfd_devices (hcas ! k))" by simp
  with k(1) g show "\<exists>k<length hcas. get_hca_by_sn (sn p) hcas = Some k \<and> p \<in> set (bfd_devices (hcas ! k))"
    by blast
qed

lemma founded_all_pf: "founded cfg devs h \<Longrightarrow> d \<in> set (bfd_devices h) \<Longrightarrow> is_pf cfg d \<and> d \<in> set devs"
  by (auto simp: founded_def)

lemma pf_inv_vf_inv:
  assumes "pf_inv cfg devs hcas"
  shows "vf_inv cfg devs hcas"
  unfolding vf_inv_def
proof (intro allI impI)
  fix k assume "k < length hcas"
  with assms have f: "founded cfg devs (hcas ! k)" by (simp add: pf_inv_def)
  have a: "\<forall>d\<in>set (bfd_devices (hcas ! k)). \<not> is_vf cfg d \<and> d \<in> set devs"
    using founded_all_pf [OF f] is_pf_not_vf by blast
  then have "vf_runs cfg None (bfd_devices (hcas ! k))" by (simp add: vf_runs_no_vf)
  with a show "set (bfd_devices (hcas ! k)) \<subseteq> set devs \<and>
        vf_runs cfg None (bfd_devices (hcas ! k)) \<and>
        (\<forall>v\<in>set (bfd_devices (hcas ! k)). is_vf cfg v \<longrightarrow> vf_target devs hcas v = Some k)"
    by blast
qed

lemma first_pass:
  "\<exists>hcas0. handle_all_pfs cfg devs [] = Some (Inr hcas0) \<and> pf_inv cfg devs hcas0"
  using handle_all_pfs_inv [OF pf_inv_empty, of cfg devs] by simp

lemma count_list_filter: "count_list (filter Q xs) x = (if Q x then count_list xs x else 0)"
  by (induction xs) auto

lemma count_list_distinct: "distinct xs \<Longrightarrow> x \<in> set xs \<Longrightarrow> count_list xs x = 1"
  by (induction xs) auto

lemma same_adapter_reset:
  "same_adapter cfg h h' \<Longrightarrow>
   h'\<lparr>bfd_devices := ds, hca_index_raw := None\<rparr> = h\<lparr>bfd_devices := ds, hca_index_raw := None\<rparr>"
  by (cases h; cases h') (simp add: same_adapter_def)

lemma same_map_idx: "list_all2 (same_adapter cfg) hs hs' \<Longrightarrow> map hca_index_raw hs' = map hca_index_raw hs"
  by (induction rule: list_all2_induct) (auto simp: same_adapter_def)

lemma assembled:
  assumes "HCAManager_init cfg devs = Some (Inr hcas)"
  shows "\<exists>hcas0. handle_all_pfs cfg devs [] = Some (Inr hcas0) \<and> pf_inv cfg devs hcas0 \<and>
           list_all2 (same_adapter cfg) hcas0 hcas"
proof -
  from first_pass obtain hcas0 where p1: "handle_all_pfs cfg devs [] = Some (Inr hcas0)"
    and inv0: "pf_inv cfg devs hcas0" by blast
  with assms have "handle_all_vfs cfg devs devs hcas0 = Some (Inr hcas)"
    by (simp add: HCAManager_init_def)
  from handle_all_vfs_same [OF this] p1 inv0 show ?thesis by blast
qed

lemma handle_pf_step:
  assumes "is_pf cfg d"
  shows "handle_pf cfg hcas d = Some (Inr
           (if sn d \<in> hca_sn ` set hcas then map (join_sn d) hcas
            else hcas @ [\<lparr> bfd_devices = [d], hca_sn = sn d, hca_pn = pn d, hca_fw = fw d,
                            hca_description = description d, hca_tempr = tempr d,
                            hca_index_raw = Some (length hcas + 1) \<rparr>]))"
  using assms is_pf_not_vf [OF assms]
  by (simp add: handle_pf_def add_to_found_pf map_join_sn_id MlnxHCA_init_def)

lemma ins_after_next:
  assumes "bdf v \<noteq> vfParent v"
  shows "i < length (ins_after v ds) \<Longrightarrow> bdf (ins_after v ds ! i) = vfParent v \<Longrightarrow>
         Suc i < length (ins_after v ds) \<and> ins_after v ds ! Suc i = v"
proof (induction ds arbitrary: i)
  case Nil
  then show ?case by simp
next
  case (Cons d ds)
  show ?case
  proof (cases "bdf d = vfParent v")
    case True
    then have e: "ins_after v (d # ds) = d # v # ins_after v ds" by simp
    show ?thesis
    proof (cases i)
      case 0
      with True show ?thesis by simp
    next
      case (Suc j)
      show ?thesis
      proof (cases j)
        case 0
        with Suc Cons.prems assms True show ?thesis by simp
      next
        case (Suc k)
        with \<open>i = Suc j\<close> Cons.prems True have "k < length (ins_after v ds)" "bdf (ins_after v ds ! k) = vfParent v"
          by simp_all
        from Cons.IH [OF this] Suc \<open>i = Suc j\<close> True show ?thesis by simp
      qed
    qed
  next
    case False
    then have e: "ins_after v (d # ds) = d # ins_after v ds" by simp
    show ?thesis
    proof (cases i)
      case 0
      with Cons.prems False show ?thesis by simp
    next
      case (Suc j)
      with Cons.prems False have "j < length (ins_after v ds)" "bdf (ins_after v ds ! j) = vfParent v"
        by simp_all
      from Cons.IH [OF this] Suc False show ?thesis by simp
    qed
  qed
qed

lemma add_bdf_dev_vf_next:
  assumes "is_vf cfg v" "vfParent v \<noteq> ''-''" "bdf v \<noteq> vfParent v"
  shows "\<exists>h'. add_bdf_dev cfg v h = Some h' \<and>
           (\<forall>d\<in>set (bfd_devices h). bdf d = vfParent v \<longrightarrow> v \<in> set (bfd_devices h')) \<and>
           (\<forall>i<length (bfd_devices h'). bdf (bfd_devices h' ! i) = vfParent v \<longrightarrow>
               Suc i < length (bfd_devices h') \<and> bfd_devices h' ! Suc i = v)"
proof -
  let ?h' = "h\<lparr>bfd_devices := ins_after v (bfd_devices h)\<rparr>"
  have a: "add_bdf_dev cfg v h = Some ?h'" by (rule add_bdf_dev_vf [OF assms])
  have b: "\<forall>d\<in>set (bfd_devices h). bdf d = vfParent v \<longrightarrow> v \<in> set (bfd_devices ?h')"
  proof (intro ballI impI)
    fix d assume "d \<in> set (bfd_devices h)" "bdf d = vfParent v"
    then have "vfParent v \<in> bdf ` set (bfd_devices h)" by (metis image_eqI)
    then show "v \<in> set (bfd_devices ?h')" by (simp add: set_ins_after)
  qed
  have c: "\<forall>i<length (bfd_devices ?h'). bdf (bfd_devices ?h' ! i) = vfParent v \<longrightarrow>
               Suc i < length (bfd_devices ?h') \<and> bfd_devices ?h' ! Suc i = v"
    using ins_after_next [OF assms(3), of _ "bfd_devices h"] by simp
  from a b c show ?thesis by blast
qed

lemma resolved_wf: "resolved_parents cfg devs \<Longrightarrow> wf_parents cfg devs"
  unfolding resolved_parents_def wf_parents_def by blast

lemma resolved_parent_seen:
  "resolved_parents cfg devs \<Longrightarrow> v \<in> set devs \<Longrightarrow> is_vf cfg v \<Longrightarrow> vfParent v \<in> bdf ` set devs"
  unfolding resolved_parents_def by force

lemma set_first_seen [simp]: "set (first_seen xs) = set xs"
  by (induction xs) auto

lemma first_seen_snoc:
  "first_seen (xs @ [x]) = (if x \<in> set xs then first_seen xs else first_seen xs @ [x])"
  by (induction xs) auto

lemma distinct_first_seen: "distinct (first_seen xs)"
  by (induction xs) auto

lemma handle_pf_sn:
  assumes "handle_pf cfg hcas d = Some (Inr r)"
    and "map hca_sn hcas = first_seen (map sn (filter (is_pf cfg) seen))"
  shows "map hca_sn r = first_seen (map sn (filter (is_pf cfg) (seen @ [d])))"
proof (cases "is_pf cfg d")
  case False
  with assms show ?thesis by (simp add: handle_pf_def)
next
  case True
  have s: "hca_sn ` set hcas = set (map sn (filter (is_pf cfg) seen))"
    using arg_cong [OF assms(2), of set] by simp
  from handle_pf_step [OF True, of hcas] assms(1)
  have r: "r = (if sn d \<in> hca_sn ` set hcas then map (join_sn d) hcas
         else hcas @ [\<lparr> bfd_devices = [d], hca_sn = sn d, hca_pn = pn d, hca_fw = fw d,
                         hca_description = description d, hca_tempr = tempr d,
                         hca_index_raw = Some (length hcas + 1) \<rparr>])" by simp
  show ?thesis
  proof (cases "sn d \<in> hca_sn ` set hcas")
    case True
    with r s assms(2) \<open>is_pf cfg d\<close> show ?thesis by (simp add: first_seen_snoc comp_def)
  next
    case False
    with r s assms(2) \<open>is_pf cfg d\<close> show ?thesis by (simp add: first_seen_snoc)
  qed
qed

lemma handle_all_pfs_sn:
  "handle_all_pfs cfg ds hcas = Some (Inr r) \<Longrightarrow>
   map hca_sn hcas = first_seen (map sn (filter (is_pf cfg) seen)) \<Longrightarrow>
   map hca_sn r = first_seen (map sn (filter (is_pf cfg) (seen @ ds)))"
proof (induction ds arbitrary: hcas seen)
  case Nil
  then show ?case by simp
next
  case (Cons d ds)
  from Cons.prems(1) obtain h' where h': "handle_pf cfg hcas d = Some (Inr h')"
    and rest: "handle_all_pfs cfg ds h' = Some (Inr r)"
    by (auto split: option.splits sum.splits)
  from Cons.IH [OF rest handle_pf_sn [OF h' Cons.prems(2)]] show ?case by simp
qed

lemma first_pass_order:
  "handle_all_pfs cfg devs [] = Some (Inr r) \<Longrightarrow>
   map hca_sn r = first_seen (map sn (filter (is_pf cfg) devs))"
  using handle_all_pfs_sn [of cfg devs "[]" r "[]"] by simp

lemma idx_nth:
  assumes "map hca_index_raw hs = map Some [1..<Suc (length hs)]" "k < length hs"
  shows "hca_index (hs ! k) = ''#'' @ str_nat (k + 1)"
proof -
  have "hca_index_raw (hs ! k) = map hca_index_raw hs ! k" using assms(2) by simp
  also have "\<dots> = Some (k + 1)" using assms by (simp del: upt_Suc)
  finally show ?thesis by (simp add: hca_index_def)
qed

lemma map_hca_index:
  assumes "map hca_index_raw hs = map hca_index_raw hs'"
  shows "map hca_index hs = map hca_index hs'"
proof -
  define f where "f = (\<lambda>r. ''#'' @ (case r of None \<Rightarrow> ''None'' | Some n \<Rightarrow> str_nat n))"
  have "hca_index = f \<circ> hca_index_raw" by (simp add: fun_eq_iff hca_index_def f_def)
  then have "\<And>xs. map hca_index xs = map f (map hca_index_raw xs)" by (simp only: map_map)
  with assms show ?thesis by (simp only:)
qed

section \<open>Properties of the output engine\<close>

lemma pop_keys_closed:
  "pop_keys keys hca =
     \<lparr> hca_info = filter (\<lambda>kv. fst kv \<notin> set keys) (hca_info hca),
       bdf_devices = map (filter (\<lambda>kv. fst kv \<notin> set keys)) (bdf_devices hca) \<rparr>"
proof (induction keys arbitrary: hca)
  case Nil
  show ?case by simp
next
  case (Cons key keys)
  have "\<And>m :: pyval dict. filter (\<lambda>kv. fst kv \<notin> set keys) (dict_pop key m) =
           filter (\<lambda>kv. fst kv \<notin> set (key # keys)) m"
    by (auto simp: dict_pop_def intro: filter_cong)
  then show ?case by (simp add: Cons.IH comp_def del: set_simps)
qed

lemma pop_keys_Nil_map: "map (pop_keys []) items = items"
  by (induction items) simp_all

lemma decrement_distinct:
  "distinct l \<Longrightarrow> decrement neg l = filter (\<lambda>k. k \<notin> set neg) l"
proof (induction neg arbitrary: l)
  case Nil
  then show ?case by simp
next
  case (Cons x neg)
  have r: "remove1 x l = filter (\<lambda>k. k \<noteq> x) l"
    using Cons.prems by (simp add: distinct_remove1_removeAll removeAll_filter_not_eq) metis
  have d: "distinct (remove1 x l)" using Cons.prems by simp
  show ?case
  proof (cases "x \<in> set l")
    case True
    then have "decrement (x # neg) l = decrement neg (remove1 x l)" by simp
    also have "\<dots> = filter (\<lambda>k. k \<notin> set neg) (remove1 x l)" by (rule Cons.IH [OF d])
    also have "\<dots> = filter (\<lambda>k. k \<notin> set (x # neg)) l"
      by (subst r) (auto intro: filter_cong)
    finally show ?thesis .
  next
    case False
    then have "decrement (x # neg) l = decrement neg l" by simp
    also have "\<dots> = filter (\<lambda>k. k \<notin> set neg) l" by (rule Cons.IH [OF Cons.prems])
    also have "\<dots> = filter (\<lambda>k. k \<notin> set (x # neg)) l"
      using False by (auto intro: filter_cong)
    finally show ?thesis .
  qed
qed

lemma apply_select_unfold:
  "apply_select_output_filters cfg st out =
     (let (st1, out1) = choose_order cfg st out in
      if output out \<noteq> [] \<and> bdf_devices (hd (output out)) = [] then Inl IndexError
      else Inr (st1, out1\<lparr>output :=
             map (pop_keys (keys_to_remove (st1 (self_output_order out1)) (output out))) (output out)\<rparr>))"
  unfolding apply_select_output_filters_def choose_order_def keys_to_remove_def
  by (auto simp: Let_def pop_keys_Nil_map split: list.splits)

lemma choose_order_output [simp]: "output (snd (choose_order cfg st out)) = output out"
  by (simp add: choose_order_def)

lemma choose_order_positive:
  "st (output_fields_filter_positive cfg) \<noteq> [] \<Longrightarrow>
   choose_order cfg st out = (st, out\<lparr>self_output_order := output_fields_filter_positive cfg\<rparr>)"
  by (simp add: choose_order_def)

lemma choose_order_negative:
  "st (output_fields_filter_positive cfg) = [] \<Longrightarrow> output_fields_filter_negative cfg \<noteq> [] \<Longrightarrow>
   choose_order cfg st out =
     (st(self_output_order out := decrement (output_fields_filter_negative cfg) (st (self_output_order out))), out)"
  by (simp add: choose_order_def)

lemma keys_to_remove_subset:
  "set (keys_to_remove order items) \<inter> set order = {}"
  by (auto simp: keys_to_remove_def split: list.splits)

lemma keys_to_remove_pruned:
  assumes "set keys \<supseteq> set (keys_to_remove order items)"
  shows "keys_to_remove order (map (pop_keys keys) items) = []"
proof (cases items)
  case Nil
  then show ?thesis by (simp add: keys_to_remove_def)
next
  case (Cons first rest)
  show ?thesis
  proof (cases "bdf_devices first")
    case Nil
    with Cons show ?thesis by (simp add: keys_to_remove_def pop_keys_closed)
  next
    case (Cons first_dev others)
    let ?R = "keys_to_remove order items"
    have R: "set ?R = {k \<in> set (dict_keys (hca_info first)) \<union> set (dict_keys first_dev). k \<notin> set order}"
      using \<open>items = first # rest\<close> Cons by (auto simp: keys_to_remove_def)
    have a: "filter (\<lambda>k. k \<notin> set order) (dict_keys (filter (\<lambda>kv. fst kv \<notin> set keys) m)) = []"
      if m: "set (dict_keys m) \<subseteq> set (dict_keys (hca_info first)) \<union> set (dict_keys first_dev)"
      for m :: "pyval dict"
    proof -
      have "k \<in> set order" if k: "k \<in> set (dict_keys m)" "k \<notin> set keys" for k
      proof (rule ccontr)
        assume "k \<notin> set order"
        with k(1) m have "k \<in> set ?R" unfolding R by blast
        with assms k(2) show False by blast
      qed
      then show ?thesis by (auto simp: dict_keys_def filter_empty_conv)
    qed
    have "filter (\<lambda>k. k \<notin> set order) (dict_keys (filter (\<lambda>kv. fst kv \<notin> set keys) (hca_info first))) = []"
      by (rule a) auto
    moreover have "filter (\<lambda>k. k \<notin> set order) (dict_keys (filter (\<lambda>kv. fst kv \<notin> set keys) first_dev)) = []"
      by (rule a) auto
    ultimately show ?thesis
      using \<open>items = first # rest\<close> Cons by (simp add: keys_to_remove_def pop_keys_closed)
  qed
qed

lemma pop_keys_devices_empty:
  "bdf_devices (pop_keys keys hca) = [] \<longleftrightarrow> bdf_devices hca = []"
  by (simp add: pop_keys_closed)

lemma hd_map_pop: "items \<noteq> [] \<Longrightarrow> hd (map (pop_keys keys) items) = pop_keys keys (hd items)"
  by (cases items) simp_all

lemma uniform_first:
  assumes "uniform_keys items" "items = first # rest"
  shows "bdf_devices first \<noteq> []"
  using assms by (simp add: uniform_keys_def)

lemma restrict_by_removal:
  assumes "\<And>k. k \<in> set (dict_keys m) \<Longrightarrow> (k \<notin> set R \<longleftrightarrow> k \<in> set order)"
  shows "filter (\<lambda>kv. fst kv \<notin> set R) m = dict_restrict order m"
  unfolding dict_restrict_def using assms
  by (intro filter_cong refl) (auto simp: dict_keys_def)

lemma pop_keys_uniform:
  assumes uni: "uniform_keys items" and it: "it \<in> set items"
  shows "pop_keys (keys_to_remove order items) it = restrict_item order it"
proof -
  from it obtain first rest where fr: "items = first # rest" by (cases items) auto
  from uniform_first [OF uni fr] obtain first_dev others where fd: "bdf_devices first = first_dev # others"
    by (cases "bdf_devices first") auto
  let ?R = "keys_to_remove order items"
  have R: "set ?R = {k \<in> set (dict_keys (hca_info first)) \<union> set (dict_keys first_dev). k \<notin> set order}"
    using fr fd by (auto simp: keys_to_remove_def)
  have first_in: "first \<in> set items" using fr by simp
  have dev_in: "first_dev \<in> set (bdf_devices first)" using fd by simp
  have ki: "set (dict_keys (hca_info it)) = set (dict_keys (hca_info first))"
    using uni it first_in unfolding uniform_keys_def by blast
  have kd: "set (dict_keys d) = set (dict_keys first_dev)" if "d \<in> set (bdf_devices it)" for d
    using uni it first_in dev_in that unfolding uniform_keys_def by blast
  have a: "filter (\<lambda>kv. fst kv \<notin> set ?R) (hca_info it) = dict_restrict order (hca_info it)"
    by (rule restrict_by_removal) (use ki R in blast)
  have b: "filter (\<lambda>kv. fst kv \<notin> set ?R) d = dict_restrict order d" if "d \<in> set (bdf_devices it)" for d
    by (rule restrict_by_removal) (use kd [OF that] R in blast)
  show ?thesis
    unfolding pop_keys_closed restrict_item_def using a b by simp
qed

lemma uniform_no_index_error:
  "uniform_keys items \<Longrightarrow> \<not> (items \<noteq> [] \<and> bdf_devices (hd items) = [])"
  by (cases items) (auto simp: uniform_keys_def)

lemma list_remove_first:
  assumes "\<forall>z\<in>set zs. \<not> eq z x" "eq x x"
  shows "list_remove eq x (zs @ x # xs) = Inr (zs @ xs)"
  using assms by (induction zs) auto

lemma remove_all_filter:
  assumes resp: "\<And>x y. eq x y \<Longrightarrow> P x = P y" and rf: "\<And>x. eq x x"
  shows "\<forall>z\<in>set zs. \<not> P z \<Longrightarrow>
         remove_all eq (filter P xs) (zs @ xs) = Inr (zs @ filter (\<lambda>x. \<not> P x) xs)"
proof (induction xs arbitrary: zs)
  case Nil
  then show ?case by simp
next
  case (Cons x xs)
  show ?case
  proof (cases "P x")
    case True
    have "\<forall>z\<in>set zs. \<not> eq z x" using Cons.prems True resp by blast
    then have "list_remove eq x (zs @ x # xs) = Inr (zs @ xs)"
      by (rule list_remove_first) (rule rf)
    then show ?thesis using True Cons.IH [OF Cons.prems] by simp
  next
    case False
    then have "\<forall>z\<in>set (zs @ [x]). \<not> P z" using Cons.prems by simp
    from Cons.IH [OF this] False show ?thesis by simp
  qed
qed

lemma remove_all_filter0:
  assumes "\<And>x y. eq x y \<Longrightarrow> P x = P y" "\<And>x. eq x x"
  shows "remove_all eq (filter P xs) xs = Inr (filter (\<lambda>x. \<not> P x) xs)"
  using remove_all_filter [of eq P "[]" xs] assms by simp

lemma map_of_None_keys: "map_of m k = None \<longleftrightarrow> k \<notin> set (dict_keys m)"
  by (simp add: dict_keys_def map_of_eq_None_iff)

lemma dict_eq_map_of: "dict_eq a b \<Longrightarrow> map_of a k = map_of b k"
  unfolding dict_eq_def by (metis map_of_None_keys)

lemma dict_eq_refl: "dict_eq a a"
  by (simp add: dict_eq_def)

lemma dict_eq_keeps: "dict_eq a b \<Longrightarrow> keeps rx key a = keeps rx key b"
  by (simp add: keeps_def dict_eq_map_of [of a b])

lemma item_eq_refl: "item_eq a a"
  by (simp add: item_eq_def dict_eq_refl list_all2_refl)

lemma item_eq_drop:
  assumes "item_eq a b"
  shows "(bdf_devices a = [] \<or> \<not> keeps rx key (hca_info a)) =
         (bdf_devices b = [] \<or> \<not> keeps rx key (hca_info b))"
proof -
  from assms have "dict_eq (hca_info a) (hca_info b)" "list_all2 dict_eq (bdf_devices a) (bdf_devices b)"
    by (simp_all add: item_eq_def)
  then show ?thesis
    using dict_eq_keeps [of "hca_info a" "hca_info b" rx key] by (auto simp: list_all2_Nil list_all2_Nil2)
qed

lemma fails_filter_Inr: "fails_filter rx key m = Inr b \<Longrightarrow> b = (\<not> keeps rx key m)"
  by (auto simp: fails_filter_def keeps_def split: option.splits pyval.splits)


lemma remove_bdf_list_Inr:
  "remove_bdf_list rx key ds = Inr r \<Longrightarrow> r = filter (\<lambda>d. \<not> keeps rx key d) ds"
proof (induction ds arbitrary: r)
  case Nil
  then show ?case by simp
next
  case (Cons d ds)
  from Cons.prems obtain b r' where b: "fails_filter rx key d = Inr b"
    and r': "remove_bdf_list rx key ds = Inr r'" and r: "r = (if b then d # r' else r')"
    by (auto split: sum.splits)
  from fails_filter_Inr [OF b] Cons.IH [OF r'] r show ?case by simp
qed


lemma remove_devices:
  "remove_all dict_eq (filter (\<lambda>d. \<not> keeps rx key d) ds) ds = Inr (filter (keeps rx key) ds)"
  using remove_all_filter0 [of dict_eq "\<lambda>d. \<not> keeps rx key d" ds]
  by (simp add: dict_eq_keeps dict_eq_refl)

lemma filter_hca_Inr:
  assumes "filter_hca rx key hca = Inr (hca', b)"
  shows "hca' = kept_devices rx key hca \<and> b = dropped rx key hca'"
proof -
  from assms obtain r ds where r: "remove_bdf_list rx key (bdf_devices hca) = Inr r"
    and ds: "remove_all dict_eq r (bdf_devices hca) = Inr ds"
    by (auto simp: filter_hca_def split: sum.splits)
  from remove_bdf_list_Inr [OF r] ds have ds': "ds = filter (keeps rx key) (bdf_devices hca)"
    by (simp add: remove_devices)
  show ?thesis
  proof (cases "ds = []")
    case True
    with assms r ds ds' show ?thesis by (auto simp: filter_hca_def kept_devices_def dropped_def)
  next
    case False
    with assms r ds obtain b' where b': "fails_filter rx key (hca_info hca) = Inr b'"
      and res: "hca' = hca\<lparr>bdf_devices := ds\<rparr>" "b = b'"
      by (auto simp: filter_hca_def split: sum.splits)
    from fails_filter_Inr [OF b'] res ds' False show ?thesis
      by (simp add: kept_devices_def dropped_def)
  qed
qed


lemma filter_hcas_Inr:
  "filter_hcas rx key items = Inr (items', rem) \<Longrightarrow>
   items' = map (kept_devices rx key) items \<and> rem = filter (dropped rx key) items'"
proof (induction items arbitrary: items' rem)
  case Nil
  then show ?case by simp
next
  case (Cons hca rest)
  from Cons.prems obtain hca' b its rm where h: "filter_hca rx key hca = Inr (hca', b)"
    and r: "filter_hcas rx key rest = Inr (its, rm)"
    and res: "items' = hca' # its" "rem = (if b then hca' # rm else rm)"
    by (auto split: sum.splits prod.splits)
  from filter_hca_Inr [OF h] Cons.IH [OF r] res show ?case by simp
qed


lemma remove_items:
  "remove_all item_eq (filter (dropped rx key) its) its = Inr (filter (\<lambda>hca. \<not> dropped rx key hca) its)"
  using remove_all_filter0 [of item_eq "dropped rx key" its] item_eq_drop [of _ _ rx key]
  by (simp add: dropped_def item_eq_refl)

lemma where_key_Inr: "where_key rx key items = Inr r \<Longrightarrow> r = where_pure rx key items"
proof -
  assume a: "where_key rx key items = Inr r"
  then obtain its rm where f: "filter_hcas rx key items = Inr (its, rm)"
    and r: "remove_all item_eq rm its = Inr r"
    by (auto simp: where_key_def split: sum.splits)
  from filter_hcas_Inr [OF f] r show ?thesis by (simp add: remove_items where_pure_def)
qed


lemma split_on_none: "c \<notin> set s \<Longrightarrow> split_on c s = [s]"
  by (induction s) auto

lemma split_on_one: "c \<notin> set k \<Longrightarrow> c \<notin> set p \<Longrightarrow> split_on c (k @ c # p) = [k, p]"
  by (induction k) (auto simp: split_on_none)

lemma dict_of_items_append:
  "dict_of_items (xs @ ys) acc =
     (case dict_of_items xs acc of Inl e \<Rightarrow> Inl e | Inr a \<Rightarrow> dict_of_items ys a)"
  by (induction xs arbitrary: acc) (auto split: list.splits)

lemma dict_keys_set: "set (dict_keys (dict_set k v d)) = insert k (set (dict_keys d))"
  by (induction d) (auto simp: dict_keys_def)

lemma dict_of_items_keys:
  "dict_of_items xs acc = Inr d \<Longrightarrow>
   set (dict_keys d) \<subseteq> set (dict_keys acc) \<union> (\<lambda>p. hd (split_on CHR ''='' p)) ` set xs"
proof (induction xs arbitrary: acc)
  case Nil
  then show ?case by simp
next
  case (Cons x xs)
  from Cons.prems obtain k v where kv: "split_on CHR ''='' x = [k, v]"
    and r: "dict_of_items xs (dict_set k v acc) = Inr d"
    by (auto split: list.splits)
  from Cons.IH [OF r] kv show ?case by (auto simp: dict_keys_set)
qed

lemma dict_set_fresh: "k \<notin> set (dict_keys d) \<Longrightarrow> dict_set k v d = d @ [(k, v)]"
  by (induction d) (auto simp: dict_keys_def)

lemma compile_all_append:
  "compile_all rc (d @ [(k, p)]) =
     (case compile_all rc d of
        Inl e \<Rightarrow> Inl e
      | Inr c \<Rightarrow> (case rc p of None \<Rightarrow> Inl ReError | Some rx \<Rightarrow> Inr (c @ [(k, rx)])))"
  by (induction d) (auto split: option.splits sum.splits)

lemma where_keys_append:
  "where_keys (c @ [(k, rx)]) items =
     (case where_keys c items of Inl e \<Rightarrow> Inl e | Inr r \<Rightarrow> where_key rx k r)"
  by (induction c arbitrary: items) (auto split: sum.splits)

lemma length_where_pure: "length (where_pure rx key items) \<le> length items"
  by (simp add: where_pure_def le_trans [OF length_filter_le])

lemma count_devices_filter: "count_devices (filter P items) \<le> count_devices items"
  by (induction items) (auto simp: count_devices_def)

lemma count_devices_kept: "count_devices (map (kept_devices rx key) items) \<le> count_devices items"
  by (induction items) (auto simp: count_devices_def kept_devices_def intro: add_mono)

lemma count_where_pure: "count_devices (where_pure rx key items) \<le> count_devices items"
  unfolding where_pure_def
  by (rule le_trans [OF count_devices_filter count_devices_kept])


lemma map_of_dict_set: "map_of (dict_set k v d) k' = (if k' = k then Some v else map_of d k')"
  by (induction d) auto

lemma distinct_dict_set: "distinct (dict_keys d) \<Longrightarrow> distinct (dict_keys (dict_set k v d))"
  using dict_keys_set [of k v, unfolded dict_keys_def]
  by (induction d) (auto simp: dict_keys_def)

lemma upd_width_idem: "upd_width order key data (upd_width order key data w) = upd_width order key data w"
  by (auto simp: upd_width_def split: option.splits pyval.splits)

lemma upd_width_absent: "map_of data key = None \<Longrightarrow> upd_width order key data w = w"
  by (simp add: upd_width_def)

lemma width_of_key_ok:
  assumes "key \<in> set order \<longrightarrow> map_of data key \<noteq> Some PyNone"
  shows "\<exists>cw'. width_of_key order data cw key = Inr cw' \<and>
           (distinct (dict_keys cw) \<longrightarrow> distinct (dict_keys cw')) \<and>
           (\<forall>k. map_of cw' k = (if k = key then upd_width order key data (map_of cw key) else map_of cw k))"
proof (cases "key \<in> set order")
  case False
  then show ?thesis by (simp add: width_of_key_def upd_width_def)
next
  case True
  show ?thesis
  proof (cases "map_of data key")
    case None
    with True show ?thesis by (simp add: width_of_key_def upd_width_def)
  next
    case (Some v)
    with assms True obtain s where s: "v = PyStr s" by (cases v) auto
    show ?thesis
    proof (cases "map_of cw key")
      case None
      with True Some s show ?thesis
        by (auto simp: width_of_key_def upd_width_def py_len_def Let_def map_of_dict_set
            distinct_dict_set max_def)
    next
      case w: (Some w)
      with True Some s show ?thesis
        by (auto simp: width_of_key_def upd_width_def py_len_def Let_def map_of_dict_set
            distinct_dict_set max_def)
    qed
  qed
qed

lemma widths_of_keys_ok:
  assumes "\<forall>k\<in>set order. map_of data k \<noteq> Some PyNone"
  shows "\<exists>cw'. widths_of_keys order data keys cw = Inr cw' \<and>
           (distinct (dict_keys cw) \<longrightarrow> distinct (dict_keys cw')) \<and>
           (\<forall>k. map_of cw' k = (if k \<in> set keys then upd_width order k data (map_of cw k) else map_of cw k))"
proof (induction keys arbitrary: cw)
  case Nil
  show ?case by simp
next
  case (Cons key keys)
  from assms have "key \<in> set order \<longrightarrow> map_of data key \<noteq> Some PyNone" by blast
  from width_of_key_ok [OF this, of cw] obtain cw1 where
    s1: "width_of_key order data cw key = Inr cw1"
    and d1: "distinct (dict_keys cw) \<longrightarrow> distinct (dict_keys cw1)"
    and m1: "\<And>k. map_of cw1 k = (if k = key then upd_width order key data (map_of cw key) else map_of cw k)"
    by blast
  from Cons.IH [of cw1] obtain cw2 where
    s2: "widths_of_keys order data keys cw1 = Inr cw2"
    and d2: "distinct (dict_keys cw1) \<longrightarrow> distinct (dict_keys cw2)"
    and m2: "\<And>k. map_of cw2 k = (if k \<in> set keys then upd_width order k data (map_of cw1 k) else map_of cw1 k)"
    by blast
  have "map_of cw2 k = (if k \<in> set (key # keys) then upd_width order k data (map_of cw k) else map_of cw k)" for k
    by (simp add: m2 m1 upd_width_idem)
  with s1 s2 d1 d2 show ?case by auto
qed

lemma widths_of_row_ok:
  assumes "\<forall>k\<in>set order. map_of data k \<noteq> Some PyNone"
  shows "\<exists>cw'. widths_of_keys order data (dict_keys data) cw = Inr cw' \<and>
           (distinct (dict_keys cw) \<longrightarrow> distinct (dict_keys cw')) \<and>
           (\<forall>k. map_of cw' k = upd_width order k data (map_of cw k))"
proof -
  from widths_of_keys_ok [OF assms, of "dict_keys data" cw] obtain cw' where
    s: "widths_of_keys order data (dict_keys data) cw = Inr cw'"
    and d: "distinct (dict_keys cw) \<longrightarrow> distinct (dict_keys cw')"
    and m: "\<And>k. map_of cw' k = (if k \<in> set (dict_keys data) then upd_width order k data (map_of cw k) else map_of cw k)"
    by blast
  have "map_of cw' k = upd_width order k data (map_of cw k)" for k
    using m [of k] upd_width_absent [of data k order "map_of cw k"] by (auto simp: map_of_None_keys)
  with s d show ?thesis by blast
qed

lemma widths_of_devices_ok:
  "str_rows order rows \<Longrightarrow>
   \<exists>cw'. widths_of_devices order rows cw = Inr cw' \<and>
     (distinct (dict_keys cw) \<longrightarrow> distinct (dict_keys cw')) \<and>
     (\<forall>k. map_of cw' k = fold (upd_width order k) rows (map_of cw k))"
proof (induction rows arbitrary: cw)
  case Nil
  show ?case by simp
next
  case (Cons data rows)
  from Cons.prems have a: "\<forall>k\<in>set order. map_of data k \<noteq> Some PyNone" and b: "str_rows order rows"
    by (simp_all add: str_rows_def)
  from widths_of_row_ok [OF a, of cw] obtain cw1 where
    s1: "widths_of_keys order data (dict_keys data) cw = Inr cw1"
    and d1: "distinct (dict_keys cw) \<longrightarrow> distinct (dict_keys cw1)"
    and m1: "\<And>k. map_of cw1 k = upd_width order k data (map_of cw k)" by blast
  from Cons.IH [OF b, of cw1] obtain cw2 where
    s2: "widths_of_devices order rows cw1 = Inr cw2"
    and d2: "distinct (dict_keys cw1) \<longrightarrow> distinct (dict_keys cw2)"
    and m2: "\<And>k. map_of cw2 k = fold (upd_width order k) rows (map_of cw1 k)" by blast
  from s1 s2 d1 d2 m1 m2 show ?case by auto
qed

lemma hca_info_width_fold:
  "hca_info_width info w =
     fold max (map (\<lambda>kv. int (length (fst kv)) + int (length (py_str (snd kv))) + 5) info) w"
  by (induction info arbitrary: w) (auto simp: Let_def max_def)

lemma widths_of_items_ok:
  "str_rows order (device_rows items) \<Longrightarrow>
   \<exists>cw'. widths_of_items order items (cw, hw) = Inr (cw', fold max (summary_widths items) hw) \<and>
     (distinct (dict_keys cw) \<longrightarrow> distinct (dict_keys cw')) \<and>
     (\<forall>k. map_of cw' k = fold (upd_width order k) (device_rows items) (map_of cw k))"
proof (induction items arbitrary: cw hw)
  case Nil
  show ?case by (simp add: summary_widths_def device_rows_def)
next
  case (Cons hca items)
  from Cons.prems have a: "str_rows order (bdf_devices hca)" and b: "str_rows order (device_rows items)"
    by (auto simp: str_rows_def device_rows_def)
  from widths_of_devices_ok [OF a, of cw] obtain cw1 where
    s1: "widths_of_devices order (bdf_devices hca) cw = Inr cw1"
    and d1: "distinct (dict_keys cw) \<longrightarrow> distinct (dict_keys cw1)"
    and m1: "\<And>k. map_of cw1 k = fold (upd_width order k) (bdf_devices hca) (map_of cw k)" by blast
  from Cons.IH [OF b, of cw1 "hca_info_width (hca_info hca) hw"] obtain cw2 where
    s2: "widths_of_items order items (cw1, hca_info_width (hca_info hca) hw) =
           Inr (cw2, fold max (summary_widths items) (hca_info_width (hca_info hca) hw))"
    and d2: "distinct (dict_keys cw1) \<longrightarrow> distinct (dict_keys cw2)"
    and m2: "\<And>k. map_of cw2 k = fold (upd_width order k) (device_rows items) (map_of cw1 k)" by blast
  have h: "fold max (summary_widths items) (hca_info_width (hca_info hca) hw) =
           fold max (summary_widths (hca # items)) hw"
    by (simp add: summary_widths_def hca_info_width_fold)
  have m: "map_of cw2 k = fold (upd_width order k) (device_rows (hca # items)) (map_of cw k)" for k
    by (simp add: m2 m1 device_rows_def)
  from s1 s2 h d1 d2 m show ?case by auto
qed

lemma fold_upd_Some:
  assumes "int (length key) \<le> w" "key \<in> set order"
  shows "fold (upd_width order key) rows (Some w) = Some (fold max (value_lengths key rows) w)"
  using assms(1)
proof (induction rows arbitrary: w)
  case Nil
  show ?case by (simp add: value_lengths_def)
next
  case (Cons d rows)
  show ?case
  proof (cases "map_of d key")
    case None
    then have "upd_width order key d (Some w) = Some w" by (simp add: upd_width_def)
    with None Cons show ?thesis by (simp add: value_lengths_def)
  next
    case (Some v)
    show ?thesis
    proof (cases v)
      case PyNone
      with Some have "upd_width order key d (Some w) = Some w" by (simp add: upd_width_def)
      with Some PyNone Cons show ?thesis by (simp add: value_lengths_def)
    next
      case (PyStr s)
      let ?n = "int (length s)"
      have u: "upd_width order key d (Some w) = Some (max ?n w)"
        using Some PyStr assms(2) Cons.prems by (auto simp: upd_width_def max_def)
      have "int (length key) \<le> max ?n w" using Cons.prems by simp
      from Cons.IH [OF this] u Some PyStr show ?thesis by (simp add: value_lengths_def)
    qed
  qed
qed

lemma fold_upd_None:
  "fold (upd_width order key) rows None =
     (if key \<in> set order \<and> value_lengths key rows \<noteq> []
      then Some (fold max (value_lengths key rows) (int (length key))) else None)"
proof (induction rows)
  case Nil
  show ?case by (simp add: value_lengths_def)
next
  case (Cons d rows)
  show ?case
  proof (cases "key \<in> set order \<and> (\<exists>s. map_of d key = Some (PyStr s))")
    case True
    then obtain s where s: "map_of d key = Some (PyStr s)" and o: "key \<in> set order" by blast
    let ?n = "int (length s)"
    have u: "upd_width order key d None = Some (max ?n (int (length key)))"
      using s o by (simp add: upd_width_def)
    have "int (length key) \<le> max ?n (int (length key))" by simp
    from fold_upd_Some [OF this o, of rows] u s o show ?thesis
      by (simp add: value_lengths_def)
  next
    case False
    then have u: "upd_width order key d None = None"
      by (auto simp: upd_width_def split: option.splits pyval.splits)
    from False have "value_lengths key (d # rows) = value_lengths key rows \<or> key \<notin> set order"
      by (auto simp: value_lengths_def split: option.splits pyval.splits)
    with u Cons show ?thesis by auto
  qed
qed

lemma value_lengths_has:
  assumes "str_rows order rows" "key \<in> set order"
  shows "value_lengths key rows \<noteq> [] \<longleftrightarrow> (\<exists>d\<in>set rows. dict_has key d)"
  using assms
  by (induction rows) (auto simp: value_lengths_def str_rows_def dict_has_def split: option.splits pyval.splits)

lemma fold_upd_col_width:
  assumes "str_rows order rows"
  shows "fold (upd_width order key) rows None = col_width order rows key"
proof -
  have "Max (set (int (length key) # value_lengths key rows)) =
        fold max (value_lengths key rows) (int (length key))"
    by (rule Max.set_eq_fold)
  then show ?thesis
    using value_lengths_has [OF assms, of key]
    unfolding fold_upd_None col_width_def by auto
qed

lemma bdf_output_info_keys:
  "dict_keys (bdf_output_info cfg d) =
     [''SRIOV'', ''Numa'', ''PCI_addr'', ''Parent_addr'', ''RDMA'', ''Net'', ''HCA_Type'', ''State'',
      ''Rate'', ''Port'', ''Link'', ''MST_device'', ''LnkCapWidth'', ''LnkStaWidth'', ''PLid'',
      ''PGuid'', ''IbNetPref'', ''SMGuid'', ''SwGuid'', ''SwDescription'', ''VrtHCA'', ''Operstate'',
      ''RoCEstat'']"
  by (simp add: bdf_output_info_def dict_keys_def)

lemma hca_output_info_keys:
  "dict_keys (hca_info (hca_output_info cfg h)) = [''SN'', ''PN'', ''FW'', ''Desc'', ''Tempr'', ''Dev'']"
  by (simp add: hca_output_info_def dict_keys_def)

lemma output_info_uniform:
  assumes "\<forall>h\<in>set hcas. bfd_devices h \<noteq> []"
  shows "uniform_keys (map (hca_output_info cfg) hcas)"
proof -
  have d: "bdf_devices (hca_output_info cfg h) = map (bdf_output_info cfg) (bfd_devices h)" for h
    by (simp add: hca_output_info_def)
  show ?thesis
    unfolding uniform_keys_def using assms
    by (auto simp: hca_output_info_keys d bdf_output_info_keys)
qed

lemma assembled_nonempty:
  assumes "HCAManager_init cfg devs = Some (Inr hcas)" "h \<in> set hcas"
  shows "bfd_devices h \<noteq> []"
proof -
  from assembled [OF assms(1)] obtain hcas0 where inv0: "pf_inv cfg devs hcas0"
    and same: "list_all2 (same_adapter cfg) hcas0 hcas" by blast
  from assms(2) obtain n where n: "n < length hcas" "h = hcas ! n" by (auto simp: in_set_conv_nth)
  from same n have sa: "same_adapter cfg (hcas0 ! n) h" by (simp add: list_all2_nthD2)
  from same n(1) have "n < length hcas0" by (simp add: list_all2_lengthD)
  with inv0 have "founded cfg devs (hcas0 ! n)" by (simp add: pf_inv_def)
  then have "bfd_devices (hcas0 ! n) \<noteq> []" unfolding founded_def by blast
  with sa show ?thesis by (simp add: same_adapter_def)
qed

lemma assembled_report_uniform:
  "HCAManager_init cfg devs = Some (Inr hcas) \<Longrightarrow> uniform_keys (map (hca_output_info cfg) hcas)"
  by (rule output_info_uniform) (blast dest: assembled_nonempty)

lemma where_pure_uniform:
  assumes "uniform_keys items"
  shows "uniform_keys (where_pure rx key items)"
proof -
  have m: "\<exists>a\<in>set items. hca_info b = hca_info a \<and> set (bdf_devices b) \<subseteq> set (bdf_devices a) \<and>
             bdf_devices b \<noteq> []"
    if "b \<in> set (where_pure rx key items)" for b
    using that by (auto simp: where_pure_def kept_devices_def dropped_def)
  show ?thesis
    unfolding uniform_keys_def
  proof (intro conjI ballI)
    fix a b assume "a \<in> set (where_pure rx key items)" "b \<in> set (where_pure rx key items)"
    then obtain a' b' where a': "a' \<in> set items" "hca_info a = hca_info a'"
        "set (bdf_devices a) \<subseteq> set (bdf_devices a')"
      and b': "b' \<in> set items" "hca_info b = hca_info b'" "set (bdf_devices b) \<subseteq> set (bdf_devices b')"
      using m by metis
    from assms a'(1) b'(1) have
      u: "set (dict_keys (hca_info a')) = set (dict_keys (hca_info b'))"
         "\<forall>d\<in>set (bdf_devices a'). \<forall>e\<in>set (bdf_devices b'). set (dict_keys d) = set (dict_keys e)"
      unfolding uniform_keys_def by blast+
    show "set (dict_keys (hca_info a)) = set (dict_keys (hca_info b))"
      using u(1) a'(2) b'(2) by simp
    show "\<And>d e. d \<in> set (bdf_devices a) \<Longrightarrow> e \<in> set (bdf_devices b) \<Longrightarrow>
             set (dict_keys d) = set (dict_keys e)"
      using u(2) a'(3) b'(3) by blast
  next
    fix a assume "a \<in> set (where_pure rx key items)"
    with m show "bdf_devices a \<noteq> []" by blast
  qed
qed

lemma where_pure_Cons:
  "where_pure rx key (hca # items) =
     (if filter (keeps rx key) (bdf_devices hca) \<noteq> [] \<and> keeps rx key (hca_info hca)
      then hca\<lparr>bdf_devices := filter (keeps rx key) (bdf_devices hca)\<rparr> # where_pure rx key items
      else where_pure rx key items)"
  by (simp add: where_pure_def kept_devices_def dropped_def)

lemma where_pure_Nil [simp]: "where_pure rx key [] = []"
  by (simp add: where_pure_def)

lemma filter_filter_nonempty:
  "filter P (filter Q xs) \<noteq> [] \<Longrightarrow> filter Q xs \<noteq> []"
  by (induction xs) auto

lemma where_pure_commute:
  "where_pure rx1 k1 (where_pure rx2 k2 items) = where_pure rx2 k2 (where_pure rx1 k1 items)"
proof (induction items)
  case Nil
  show ?case by simp
next
  case (Cons hca items)
  let ?d = "bdf_devices hca"
  have c: "filter (keeps rx1 k1) (filter (keeps rx2 k2) ?d) = filter (keeps rx2 k2) (filter (keeps rx1 k1) ?d)"
    by (auto intro: filter_cong)
  have n1: "filter (keeps rx1 k1) (filter (keeps rx2 k2) ?d) \<noteq> [] \<Longrightarrow> filter (keeps rx2 k2) ?d \<noteq> []"
    by (rule filter_filter_nonempty)
  have n2: "filter (keeps rx2 k2) (filter (keeps rx1 k1) ?d) \<noteq> [] \<Longrightarrow> filter (keeps rx1 k1) ?d \<noteq> []"
    by (rule filter_filter_nonempty)
  show ?case
    using Cons.IH c n1 n2 by (auto simp: where_pure_Cons)
qed

lemma where_keys_Inr:
  "where_keys c items = Inr r \<Longrightarrow> r = fold (\<lambda>kr. where_pure (snd kr) (fst kr)) c items"
proof (induction c arbitrary: items)
  case Nil
  then show ?case by simp
next
  case (Cons kr c)
  obtain k rx where kr: "kr = (k, rx)" by (cases kr)
  with Cons.prems obtain r1 where r1: "where_key rx k items = Inr r1" and r: "where_keys c r1 = Inr r"
    by (auto split: sum.splits)
  from where_key_Inr [OF r1] Cons.IH [OF r] kr show ?case by simp
qed

lemma where_keys_order:
  assumes "where_keys c1 items = Inr r1" "where_keys c2 items = Inr r2" "mset c1 = mset c2"
  shows "r1 = r2"
proof -
  have "fold (\<lambda>kr. where_pure (snd kr) (fst kr)) c1 = fold (\<lambda>kr. where_pure (snd kr) (fst kr)) c2"
    by (rule fold_multiset_equiv) (auto simp: assms(3) where_pure_commute)
  with where_keys_Inr [OF assms(1)] where_keys_Inr [OF assms(2)] show ?thesis by simp
qed

lemma order_dict_closed:
  "distinct order \<Longrightarrow> set order \<inter> set (dict_keys acc) = {} \<Longrightarrow>
   order_dict order args p acc = acc @ zip (present order args) [p..<p + length (present order args)]"
proof (induction order arbitrary: p acc)
  case Nil
  show ?case by (simp add: present_def)
next
  case (Cons key keys)
  show ?case
  proof (cases "dict_has key args")
    case False
    with Cons show ?thesis by (simp add: present_def)
  next
    case True
    have fresh: "key \<notin> set (dict_keys acc)" using Cons.prems(2) by simp
    have d: "distinct keys" using Cons.prems(1) by simp
    have "set keys \<inter> set (dict_keys (acc @ [(key, p)])) = {}"
      using Cons.prems by (auto simp: dict_keys_def)
    from Cons.IH [OF d this, of "p + 1"]
    have ih: "order_dict keys args (p + 1) (acc @ [(key, p)]) =
        (acc @ [(key, p)]) @ zip (present keys args) [p + 1..<p + 1 + length (present keys args)]" .
    have u: "[p..<p + length (key # present keys args)] =
             p # [p + 1..<p + 1 + length (present keys args)]"
      by (simp add: upt_conv_Cons del: upt_Suc)
    have pr: "present (key # keys) args = key # present keys args"
      using True by (simp add: present_def)
    have "order_dict (key # keys) args p acc = order_dict keys args (p + 1) (acc @ [(key, p)])"
      using True fresh by (simp add: dict_set_fresh)
    also have "\<dots> = (acc @ [(key, p)]) @
        zip (present keys args) [p + 1..<p + 1 + length (present keys args)]"
      by (rule ih)
    also have "\<dots> = acc @ zip (key # present keys args)
        (p # [p + 1..<p + 1 + length (present keys args)])"
      by (simp del: upt_Suc)
    also have "\<dots> = acc @ zip (present (key # keys) args)
        [p..<p + length (present (key # keys) args)]"
      by (simp only: pr u)
    finally show ?thesis .
  qed
qed

lemma place_lines_nth:
  assumes d: "distinct P" and od: "od = zip P [0..<length P]"
  shows "length l = length P \<Longrightarrow>
     length (place_lines od args ks l) = length P \<and>
     (\<forall>j<length P. place_lines od args ks l ! j =
         (if P ! j \<in> set ks then summary_line args (P ! j) else l ! j))"
proof (induction ks arbitrary: l)
  case Nil
  then show ?case by simp
next
  case (Cons key ks)
  show ?case
  proof (cases "map_of od key")
    case None
    then have "key \<notin> set P" unfolding od by (simp add: map_of_zip_is_None)
    then have ne: "\<And>j. j < length P \<Longrightarrow> P ! j \<noteq> key" by (metis nth_mem)
    from None Cons.IH [OF Cons.prems] ne show ?thesis by simp
  next
    case (Some p)
    then have "(key, p) \<in> set (zip P [0..<length P])" unfolding od by (rule map_of_SomeD)
    then have p: "p < length P" "P ! p = key"
      by (auto simp: in_set_zip)
    let ?l' = "take p l @ [summary_line args key] @ drop (p + 1) l"
    have l': "?l' = l[p := summary_line args key]"
      using p(1) Cons.prems by (simp add: upd_conv_take_nth_drop)
    have len: "length ?l' = length P" using Cons.prems by (simp only: l' length_list_update)
    have uniq: "\<And>j. j < length P \<Longrightarrow> (P ! j = key) = (j = p)"
      using d p by (metis nth_eq_iff_index_eq)
    have step: "place_lines od args (key # ks) l = place_lines od args ks ?l'"
      using Some by (simp add: summary_line_def)
    from Cons.IH [OF len] have
      a: "length (place_lines od args ks ?l') = length P"
      and b: "\<And>j. j < length P \<Longrightarrow> place_lines od args ks ?l' ! j =
         (if P ! j \<in> set ks then summary_line args (P ! j) else ?l' ! j)" by blast+
    have "place_lines od args ks ?l' ! j =
         (if P ! j \<in> set (key # ks) then summary_line args (P ! j) else l ! j)" if j: "j < length P" for j
      using b [OF j] uniq [OF j] j Cons.prems p unfolding l' by (auto simp: nth_list_update)
    with a step show ?thesis by simp
  qed
qed

lemma print_hca_info_order:
  assumes "distinct order"
  shows "print_hca_info order args = map (summary_line args) (present order args)"
proof -
  let ?P = "present order args"
  have dP: "distinct ?P" using assms by (simp add: present_def)
  have od: "order_dict order args 0 [] = zip ?P [0..<length ?P]"
    using order_dict_closed [OF assms, of "[]" args 0] by (simp add: dict_keys_def)
  have len: "length (replicate (length (zip ?P [0..<length ?P])) '''') = length ?P" by simp
  from place_lines_nth [OF dP refl len, of args "dict_keys args"] have
    a: "length (place_lines (zip ?P [0..<length ?P]) args (dict_keys args)
          (replicate (length (zip ?P [0..<length ?P])) '''')) = length ?P"
    and b: "\<And>j. j < length ?P \<Longrightarrow>
       place_lines (zip ?P [0..<length ?P]) args (dict_keys args)
          (replicate (length (zip ?P [0..<length ?P])) '''') ! j =
         (if ?P ! j \<in> set (dict_keys args) then summary_line args (?P ! j)
          else replicate (length (zip ?P [0..<length ?P])) '''' ! j)" by blast+
  have inkeys: "?P ! j \<in> set (dict_keys args)" if "j < length ?P" for j
  proof -
    from that have "?P ! j \<in> set ?P" by (rule nth_mem)
    then have "dict_has (?P ! j) args" by (simp add: present_def)
    then show ?thesis by (simp add: dict_has_def map_of_None_keys)
  qed
  show ?thesis
    unfolding print_hca_info_def Let_def od
  proof (rule nth_equalityI)
    show "length (place_lines (zip ?P [0..<length ?P]) args (dict_keys args)
          (replicate (length (zip ?P [0..<length ?P])) '''')) = length (map (summary_line args) ?P)"
      using a by simp
  next
    fix j assume "j < length (place_lines (zip ?P [0..<length ?P]) args (dict_keys args)
          (replicate (length (zip ?P [0..<length ?P])) ''''))"
    then have j: "j < length ?P" using a by simp
    from b [OF j] inkeys [OF j] j
    show "place_lines (zip ?P [0..<length ?P]) args (dict_keys args)
          (replicate (length (zip ?P [0..<length ?P])) '''') ! j = map (summary_line args) ?P ! j"
      by simp
  qed
qed


lemma center_nonneg: "0 \<le> w \<Longrightarrow> center s w = Inr (centered s (nat w))"
  by (simp add: center_def centered_def Let_def)

lemma format_cell_ok:
  "map_of cw k = Some w \<Longrightarrow> 0 \<le> w \<Longrightarrow> format_cell cw k s = Inr (centered s (width_of cw k))"
  by (simp add: format_cell_def width_of_def center_nonneg)

lemma place_cells_nth:
  assumes d: "distinct P" and od: "od = zip P [0..<length P]" and w: "has_widths cw P"
  shows "length l = length P \<Longrightarrow>
     \<exists>r. place_cells od cw f ks l = Inr r \<and> length r = length P \<and>
       (\<forall>j<length P. r ! j =
          (if P ! j \<in> set ks then centered (f (P ! j)) (width_of cw (P ! j)) else l ! j))"
proof (induction ks arbitrary: l)
  case Nil
  then show ?case by simp
next
  case (Cons key ks)
  show ?case
  proof (cases "map_of od key")
    case None
    then have "key \<notin> set P" unfolding od by (simp add: map_of_zip_is_None)
    then have ne: "\<And>j. j < length P \<Longrightarrow> P ! j \<noteq> key" by (metis nth_mem)
    from None Cons.IH [OF Cons.prems] ne show ?thesis by simp
  next
    case (Some p)
    then have "(key, p) \<in> set (zip P [0..<length P])" unfolding od by (rule map_of_SomeD)
    then have p: "p < length P" "P ! p = key"
      by (auto simp: in_set_zip)
    then have "key \<in> set P" by (metis nth_mem)
    with w obtain wd where wd: "map_of cw key = Some wd" "0 \<le> wd"
      unfolding has_widths_def by (auto split: option.splits)
    let ?c = "centered (f key) (width_of cw key)"
    let ?l' = "take p l @ [?c] @ drop (p + 1) l"
    have l': "?l' = l[p := ?c]"
      using p(1) Cons.prems by (simp add: upd_conv_take_nth_drop)
    have len: "length ?l' = length P" using Cons.prems by (simp only: l' length_list_update)
    have uniq: "\<And>j. j < length P \<Longrightarrow> (P ! j = key) = (j = p)"
      using d p by (metis nth_eq_iff_index_eq)
    have step: "place_cells od cw f (key # ks) l = place_cells od cw f ks ?l'"
      using Some format_cell_ok [OF wd] by simp
    from Cons.IH [OF len] obtain r where
      r: "place_cells od cw f ks ?l' = Inr r"
      and a: "length r = length P"
      and b: "\<And>j. j < length P \<Longrightarrow> r ! j =
         (if P ! j \<in> set ks then centered (f (P ! j)) (width_of cw (P ! j)) else ?l' ! j)" by blast
    have "r ! j =
         (if P ! j \<in> set (key # ks) then centered (f (P ! j)) (width_of cw (P ! j)) else l ! j)"
      if j: "j < length P" for j
      using b [OF j] uniq [OF j] j Cons.prems p unfolding l' by (auto simp: nth_list_update)
    with a r step show ?thesis by simp
  qed
qed

lemma place_cells_all:
  assumes d: "distinct P" and od: "od = zip P [0..<length P]" and w: "has_widths cw P"
    and len: "length l = length P" and sub: "set P \<subseteq> set ks"
  shows "place_cells od cw f ks l = Inr (map (\<lambda>k. centered (f k) (width_of cw k)) P)"
proof -
  from place_cells_nth [OF d od w len, of f ks] obtain r where
    r: "place_cells od cw f ks l = Inr r" and a: "length r = length P"
    and b: "\<And>j. j < length P \<Longrightarrow> r ! j =
          (if P ! j \<in> set ks then centered (f (P ! j)) (width_of cw (P ! j)) else l ! j)" by blast
  have "r = map (\<lambda>k. centered (f k) (width_of cw k)) P"
  proof (rule nth_equalityI)
    show "length r = length (map (\<lambda>k. centered (f k) (width_of cw k)) P)" using a by simp
  next
    fix j assume "j < length r"
    then have j: "j < length P" using a by simp
    then have "P ! j \<in> set ks" using sub by (metis nth_mem subsetD)
    with b [OF j] j show "r ! j = map (\<lambda>k. centered (f k) (width_of cw k)) P ! j" by simp
  qed
  with r show ?thesis by simp
qed

lemma present_in_keys: "set (present order first) \<subseteq> set (dict_keys first)"
  by (auto simp: present_def dict_has_def map_of_None_keys)

lemma present_cong:
  "set (dict_keys a) = set (dict_keys b) \<Longrightarrow> present order a = present order b"
  by (simp add: present_def dict_has_def map_of_None_keys)

lemma print_rows_rest:
  assumes d: "distinct P" and od: "od = zip P [0..<length P]" and w: "has_widths cw P"
    and P: "P = present order first"
  shows "1 < cnt \<Longrightarrow> \<forall>line\<in>set lines. set (dict_keys line) = set (dict_keys first) \<Longrightarrow>
     print_rows od cw sep cnt lines = Inr (map (table_row order cw first) lines)"
proof (induction lines arbitrary: cnt)
  case Nil
  show ?case by simp
next
  case (Cons line rest)
  have sub: "set P \<subseteq> set (dict_keys line)"
    using Cons.prems(2) present_in_keys [of order first] P by simp
  have lo: "length od = length P" unfolding od by simp
  have row: "place_cells od cw (\<lambda>key. py_str (case map_of line key of Some v \<Rightarrow> v | None \<Rightarrow> PyNone))
       (dict_keys line) (replicate (length od) []) =
     Inr (map (\<lambda>k. centered (value_text line k) (width_of cw k)) P)"
    using place_cells_all [OF d od w _ sub, of "replicate (length od) []"] lo
    by (simp add: value_text_def)
  have ih: "print_rows od cw sep (cnt + 1) rest = Inr (map (table_row order cw first) rest)"
    using Cons.IH [of "cnt + 1"] Cons.prems by simp
  from Cons.prems(1) have c: "cnt \<noteq> 1" by simp
  show ?case using c row ih by (simp add: table_row_def P)
qed

lemma print_rows_first:
  assumes "place_cells od cw (\<lambda>key. key) (dict_keys line) (replicate (length od) []) = Inr cells"
    and "place_cells od cw (\<lambda>key. py_str (case map_of line key of Some v \<Rightarrow> v | None \<Rightarrow> PyNone))
           (dict_keys line) cells = Inr row"
    and "print_rows od cw sep (1 + 1) rest = Inr below"
  shows "print_rows od cw sep 1 (line # rest) =
     Inr ([str_join '' | '' cells, sep] @ [str_join '' | '' row] @ below)"
  using assms by simp

lemma print_bdf_devices_order:
  assumes d: "distinct order" and ne: "args \<noteq> []"
    and uni: "\<forall>line\<in>set args. set (dict_keys line) = set (dict_keys (hd args))"
    and w: "has_widths cw (present order (hd args))"
  shows "print_bdf_devices order cw sep args = Inr (table_lines order cw sep args)"
proof -
  from ne obtain first rest where a: "args = first # rest" by (cases args) auto
  define P where "P = present order first"
  define od where "od = zip P [0..<length P]"
  have dP: "distinct P" using d by (simp add: present_def P_def)
  have od': "order_dict order first 0 [] = od"
    using order_dict_closed [OF d, of "[]" first 0] by (simp add: dict_keys_def od_def P_def)
  have w': "has_widths cw P" using w a by (simp add: P_def)
  have lo: "length (replicate (length od) ([]::string)) = length P" by (simp add: od_def)
  have sub: "set P \<subseteq> set (dict_keys first)" unfolding P_def by (rule present_in_keys)
  have head: "place_cells od cw (\<lambda>key. key) (dict_keys first) (replicate (length od) []) =
     Inr (map (\<lambda>k. centered k (width_of cw k)) P)"
    by (rule place_cells_all [OF dP od_def w' lo sub])
  have lm: "length (map (\<lambda>k. centered k (width_of cw k)) P) = length P" by simp
  have row: "place_cells od cw (\<lambda>key. py_str (case map_of first key of Some v \<Rightarrow> v | None \<Rightarrow> PyNone))
       (dict_keys first) (map (\<lambda>k. centered k (width_of cw k)) P) =
     Inr (map (\<lambda>k. centered (py_str (case map_of first k of Some v \<Rightarrow> v | None \<Rightarrow> PyNone)) (width_of cw k)) P)"
    by (rule place_cells_all [OF dP od_def w' lm sub])
  have u: "\<forall>line\<in>set rest. set (dict_keys line) = set (dict_keys first)" using uni a by simp
  have rest: "print_rows od cw sep (1 + 1) rest = Inr (map (table_row order cw first) rest)"
    by (rule print_rows_rest [OF dP od_def w' P_def _ u]) simp
  have "print_rows od cw sep 1 (first # rest) =
     Inr ([str_join '' | '' (map (\<lambda>k. centered k (width_of cw k)) P), sep] @
          [str_join '' | '' (map (\<lambda>k. centered (py_str (case map_of first k of Some v \<Rightarrow> v | None \<Rightarrow> PyNone)) (width_of cw k)) P)] @
          map (table_row order cw first) rest)"
    by (rule print_rows_first [OF head row rest])
  then have "print_rows od cw sep 1 (first # rest) = Inr (table_lines order cw sep (first # rest))"
    by (simp add: table_lines_def table_head_def table_row_def value_text_def P_def)
  then show ?thesis
    unfolding a print_bdf_devices_def od' [symmetric] by simp
qed

lemma keys_restrict: "set (dict_keys (dict_restrict order m)) = set (dict_keys m) \<inter> set order"
  by (auto simp: dict_keys_def dict_restrict_def)

lemma restrict_uniform:
  assumes uni: "uniform_keys items" and h: "hca \<in> set (map (restrict_item order) items)"
  shows "bdf_devices hca \<noteq> [] \<and>
         (\<forall>line\<in>set (bdf_devices hca). set (dict_keys line) = set (dict_keys (hd (bdf_devices hca))))"
proof -
  from h obtain it where it: "it \<in> set items" and hca: "hca = restrict_item order it" by auto
  from uni it have ne: "bdf_devices it \<noteq> []" unfolding uniform_keys_def by blast
  from uni it have same: "\<And>d e. d \<in> set (bdf_devices it) \<Longrightarrow> e \<in> set (bdf_devices it) \<Longrightarrow>
      set (dict_keys d) = set (dict_keys e)"
    unfolding uniform_keys_def by blast
  have hdm: "hd (bdf_devices it) \<in> set (bdf_devices it)" using ne by (rule hd_in_set)
  have b: "bdf_devices hca = map (dict_restrict order) (bdf_devices it)"
    unfolding hca by (simp add: restrict_item_def)
  have hdr: "hd (bdf_devices hca) = dict_restrict order (hd (bdf_devices it))"
    unfolding b using ne by (rule hd_map)
  have "set (dict_keys line) = set (dict_keys (hd (bdf_devices hca)))" if "line \<in> set (bdf_devices hca)" for line
  proof -
    from that b obtain d where d: "d \<in> set (bdf_devices it)" and l: "line = dict_restrict order d" by auto
    have "set (dict_keys d) \<inter> set order = set (dict_keys (hd (bdf_devices it))) \<inter> set order"
      by (rule arg_cong [OF same [OF d hdm]])
    then show ?thesis unfolding l hdr keys_restrict .
  qed
  moreover have "bdf_devices hca \<noteq> []" unfolding b using ne by simp
  ultimately show ?thesis by blast
qed

lemma set_widths_col_width:
  assumes empty: "column_width out = []"
    and strs: "str_rows order (device_rows (output out))"
    and run: "set_widths cfg order out = Inr out'"
  shows "map_of (column_width out') key = col_width order (device_rows (output out)) key"
proof -
  from widths_of_items_ok [OF strs, of "[]" 0] obtain cw where
    s: "widths_of_items order (output out) ([], 0) = Inr (cw, fold max (summary_widths (output out)) 0)"
    and m: "\<And>k. map_of cw k = fold (upd_width order k) (device_rows (output out)) None"
    by auto
  from run have "column_width out' = cw"
    unfolding set_widths_def empty s by (auto simp: Let_def)
  with m fold_upd_col_width [OF strs] show ?thesis by simp
qed

lemma col_width_nonneg:
  assumes "col_width order rows key = Some w"
  shows "0 \<le> w"
proof -
  from assms have w: "w = Max (set (int (length key) # value_lengths key rows))"
    by (simp add: col_width_def split: if_splits)
  have "0 \<le> int (length key)" by simp
  also have "int (length key) \<le> Max (set (int (length key) # value_lengths key rows))"
    by (rule Max_ge) simp_all
  finally show ?thesis unfolding w .
qed

lemma set_widths_has_widths:
  assumes empty: "column_width out = []"
    and strs: "str_rows order (device_rows (output out))"
    and run: "set_widths cfg order out = Inr out'"
    and h: "hca \<in> set (output out)" and ne: "bdf_devices hca \<noteq> []"
  shows "has_widths (column_width out') (present order (hd (bdf_devices hca)))"
  unfolding has_widths_def
proof
  fix k assume k: "k \<in> set (present order (hd (bdf_devices hca)))"
  then have ko: "k \<in> set order" and kh: "dict_has k (hd (bdf_devices hca))"
    by (simp_all add: present_def)
  have "hd (bdf_devices hca) \<in> set (device_rows (output out))"
    using h hd_in_set [OF ne] by (auto simp: device_rows_def)
  with ko kh have "col_width order (device_rows (output out)) k \<noteq> None"
    by (auto simp: col_width_def)
  then obtain w where w: "col_width order (device_rows (output out)) k = Some w" by auto
  from col_width_nonneg [OF w] w set_widths_col_width [OF empty strs run, of k]
  show "case map_of (column_width out') k of None \<Rightarrow> False | Some w \<Rightarrow> 0 \<le> w" by simp
qed

lemma json_members_sorted: "sorted (map fst (json_members d)) \<and> mset (json_members d) = mset d"
  by (simp add: json_members_def)

lemma print_items_order:
  assumes d: "distinct order"
  shows "\<forall>hca\<in>set items. table_shape hca \<and> has_widths cw (present order (hd (bdf_devices hca))) \<Longrightarrow>
     print_items order cw sep items = Inr (report_lines order cw sep items)"
proof (induction items)
  case Nil
  show ?case by (simp add: report_lines_def)
next
  case (Cons hca rest)
  from Cons.prems have ts: "table_shape hca"
    and w: "has_widths cw (present order (hd (bdf_devices hca)))"
    and tl: "\<forall>hca\<in>set rest. table_shape hca \<and> has_widths cw (present order (hd (bdf_devices hca)))"
    by simp_all
  from ts have ne: "bdf_devices hca \<noteq> []"
    and u: "\<forall>line\<in>set (bdf_devices hca). set (dict_keys line) = set (dict_keys (hd (bdf_devices hca)))"
    unfolding table_shape_def by blast+
  have t: "print_bdf_devices order cw sep (bdf_devices hca) = Inr (table_lines order cw sep (bdf_devices hca))"
    by (rule print_bdf_devices_order [OF d ne u w])
  have s: "print_hca_info order (hca_info hca) = map (summary_line (hca_info hca)) (present order (hca_info hca))"
    by (rule print_hca_info_order [OF d])
  have ih: "print_items order cw sep rest = Inr (report_lines order cw sep rest)"
    by (rule Cons.IH [OF tl])
  show ?case by (simp add: t s ih report_lines_def)
qed

lemma set_widths_frame:
  assumes "set_widths cfg order out = Inr out'"
  shows "output out' = output out \<and> self_output_order out' = self_output_order out"
  using assms by (auto simp: set_widths_def Let_def split: sum.splits prod.splits)

lemma set_widths_returns:
  assumes empty: "column_width out = []"
    and strs: "str_rows order (device_rows (output out))"
  shows "\<exists>out'. set_widths cfg order out = Inr out'"
proof -
  from widths_of_items_ok [OF strs, of "[]" 0] obtain cw where
    s: "widths_of_items order (output out) ([], 0) = Inr (cw, fold max (summary_widths (output out)) 0)"
    by auto
  show ?thesis unfolding set_widths_def empty s by (simp add: Let_def)
qed

lemma print_output_human:
  assumes nf: "where_output_filter cfg = []" and fmt: "output_format cfg = ''human_readable''"
    and sel: "apply_select_output_filters cfg st out = Inr (st', out')"
    and empty: "column_width out' = []"
    and d: "distinct (st' (self_output_order out'))"
    and strs: "str_rows (st' (self_output_order out')) (device_rows (output out'))"
    and shape: "\<forall>hca\<in>set (output out'). table_shape hca"
  shows "\<exists>out''. print_output re_compile enc cfg st out =
     Inr (st', out'', separator out'' #
            report_lines (st' (self_output_order out')) (column_width out'') (separator out'') (output out'))"
proof -
  let ?L = "st' (self_output_order out')"
  from set_widths_returns [OF empty strs] obtain out'' where sw: "set_widths cfg ?L out' = Inr out''"
    by blast
  from set_widths_frame [OF sw] have fr: "output out'' = output out'"
    "self_output_order out'' = self_output_order out'" by simp_all
  have hw: "\<forall>hca\<in>set (output out'). table_shape hca \<and>
      has_widths (column_width out'') (present ?L (hd (bdf_devices hca)))"
  proof
    fix hca assume h: "hca \<in> set (output out')"
    with shape have ts: "table_shape hca" by blast
    then have ne: "bdf_devices hca \<noteq> []" by (simp add: table_shape_def)
    from set_widths_has_widths [OF empty strs sw h ne] ts
    show "table_shape hca \<and> has_widths (column_width out'') (present ?L (hd (bdf_devices hca)))"
      by simp
  qed
  have pi: "print_items ?L (column_width out'') (separator out'') (output out') =
     Inr (report_lines ?L (column_width out'') (separator out'') (output out'))"
    by (rule print_items_order [OF d hw])
  have fo: "filter_out_data re_compile cfg st out = Inr (st', out')"
    using nf sel by (simp add: filter_out_data_def apply_where_output_filters_def)
  have "print_output re_compile enc cfg st out =
     Inr (st', out'', separator out'' #
            report_lines ?L (column_width out'') (separator out'') (output out'))"
    unfolding print_output_def fo using fmt sw pi fr by simp
  then show ?thesis by blast
qed

lemma print_output_json:
  assumes nf: "where_output_filter cfg = []" and fmt: "output_format cfg = ''json''"
    and sel: "apply_select_output_filters cfg st out = Inr (st', out')"
  shows "print_output re_compile enc cfg st out = Inr (st', out', [json_dumps enc (output out')])"
proof -
  have fo: "filter_out_data re_compile cfg st out = Inr (st', out')"
    using nf sel by (simp add: filter_out_data_def apply_where_output_filters_def)
  show ?thesis unfolding print_output_def fo using fmt by simp
qed

section \<open>The claims about topology assembly\<close>

text \<open>
  Claim C1. The specification says that a VF whose parent address is the bus
  address of no discovered PF aborts the run with an error. The code raises
  \<^verbatim>\<open>Exception("VF ... This device has no parent PF")\<close> only when some record
  has the parent address and no adapter record has the serial number of that
  record; when no record has the address, the inner loop of the second pass
  ends and the VF is left out. On a host with one PF at \<^verbatim>\<open>0000:01:00.0\<close> and
  a VF whose parent address is \<^verbatim>\<open>0000:02:00.0\<close> the run returns the adapter
  record of the PF alone, and raises nothing. The second equation is the path
  that does raise: two VFs and no PF, the parent address of the second being the
  bus address of the first.
\<close>

theorem C1_orphan_vf_is_skipped:
  "HCAManager_init ex_cfg [ex_pf, ex_orphan] = Some (Inr [ex_hca [ex_pf]]) \<and>
   HCAManager_init ex_cfg [ex_vf1, ex_orphan\<lparr>vfParent := ''0000:01:00.1''\<rparr>] = Some (Inl PyException)"
  by code_simp

text \<open>
  Claim C2, as stated: every VF stands at the position right after its parent
  PF. It fails when a PF owns two VFs: each VF is inserted right after the PF,
  so the one handled first is pushed one position further by the next. For the
  PF at \<^verbatim>\<open>0000:01:00.0\<close> with the VFs \<^verbatim>\<open>.1\<close> and \<^verbatim>\<open>.2\<close>, discovered in this
  order, the device sequence is PF, \<^verbatim>\<open>.2\<close>, \<^verbatim>\<open>.1\<close>: the record before the VF
  \<^verbatim>\<open>.1\<close> is the other VF, not the parent.
\<close>

theorem C2_counterexample_two_vfs:
  "HCAManager_init ex_cfg [ex_pf, ex_vf1, ex_vf2] = Some (Inr [ex_hca [ex_pf, ex_vf2, ex_vf1]]) \<and>
   is_vf ex_cfg ex_vf1 \<and> vfParent ex_vf1 = bdf ex_pf \<and>
   bfd_devices (ex_hca [ex_pf, ex_vf2, ex_vf1]) ! 2 = ex_vf1 \<and>
   bfd_devices (ex_hca [ex_pf, ex_vf2, ex_vf1]) ! 1 \<noteq> ex_vf1 \<and>
   bdf (bfd_devices (ex_hca [ex_pf, ex_vf2, ex_vf1]) ! 1) \<noteq> vfParent ex_vf1"
  by code_simp

text \<open>
  Claim C2, amended. Take the device records of a host where the parent address
  of every VF is the bus address of a record, and the records at that address
  are PFs. Then the assembly returns. Every VF is in the device sequence of
  exactly one adapter record: the one with the serial number of its parent PF
  (the first record at the parent address), which holds that PF. And wherever a
  VF stands in a device sequence, a PF of its parent address stands before it,
  with nothing but VFs of the same parent address between the two.
\<close>

theorem C2_vf_in_run_after_parent:
  assumes rp: "resolved_parents cfg devs"
  shows "\<exists>hcas. HCAManager_init cfg devs = Some (Inr hcas) \<and>
     (\<forall>v\<in>set devs. is_vf cfg v \<longrightarrow>
        (\<exists>k<length hcas. \<exists>p\<in>set (bfd_devices (hcas ! k)).
           find (\<lambda>d. vfParent v = bdf d) devs = Some p \<and> is_pf cfg p \<and>
           hca_sn (hcas ! k) = sn p \<and>
           v \<in> set (bfd_devices (hcas ! k)) \<and>
           (\<forall>k'<length hcas. v \<in> set (bfd_devices (hcas ! k')) \<longrightarrow> k' = k))) \<and>
     (\<forall>h\<in>set hcas. \<forall>j<length (bfd_devices h). is_vf cfg (bfd_devices h ! j) \<longrightarrow>
        (\<exists>i<j. is_pf cfg (bfd_devices h ! i) \<and>
                bdf (bfd_devices h ! i) = vfParent (bfd_devices h ! j) \<and>
                (\<forall>m. i < m \<and> m < j \<longrightarrow> is_vf cfg (bfd_devices h ! m) \<and>
                      vfParent (bfd_devices h ! m) = vfParent (bfd_devices h ! j))))"
proof -
  note wf = resolved_wf [OF rp]
  from first_pass obtain hcas0 where p1: "handle_all_pfs cfg devs [] = Some (Inr hcas0)"
    and inv0: "pf_inv cfg devs hcas0" by blast
  from handle_all_vfs_inv [OF wf subset_refl pf_inv_placed [OF inv0] pf_inv_vf_inv [OF inv0]]
  obtain hcas where p2: "handle_all_vfs cfg devs devs hcas0 = Some (Inr hcas)"
    and inv: "vf_inv cfg devs hcas"
    and mem: "\<forall>v\<in>set devs. is_vf cfg v \<and> vfParent v \<in> bdf ` set devs \<longrightarrow>
          (\<exists>k<length hcas. v \<in> set (bfd_devices (hcas ! k)))" by blast
  have run: "HCAManager_init cfg devs = Some (Inr hcas)"
    using p1 p2 by (simp add: HCAManager_init_def)
  have same: "list_all2 (same_adapter cfg) hcas0 hcas" by (rule handle_all_vfs_same [OF p2])
  have len: "length hcas = length hcas0" using same by (simp add: list_all2_lengthD)
  have placed: "pf_placed cfg devs hcas"
    by (rule pf_placed_same [OF pf_inv_placed [OF inv0] same])
  have order: "\<forall>h\<in>set hcas. \<forall>j<length (bfd_devices h). is_vf cfg (bfd_devices h ! j) \<longrightarrow>
        (\<exists>i<j. is_pf cfg (bfd_devices h ! i) \<and>
                bdf (bfd_devices h ! i) = vfParent (bfd_devices h ! j) \<and>
                (\<forall>m. i < m \<and> m < j \<longrightarrow> is_vf cfg (bfd_devices h ! m) \<and>
                      vfParent (bfd_devices h ! m) = vfParent (bfd_devices h ! j)))"
  proof (intro ballI allI impI)
    fix h j assume h: "h \<in> set hcas" and j: "j < length (bfd_devices h)"
      and vf: "is_vf cfg (bfd_devices h ! j)"
    from h obtain n where n: "n < length hcas" "h = hcas ! n" by (auto simp: in_set_conv_nth)
    let ?ds = "bfd_devices h"
    from inv n have runs: "vf_runs cfg None ?ds" by (simp add: vf_inv_def)
    from vf_runs_index [OF runs j vf] obtain i where i: "i < j" "\<not> is_vf cfg (?ds ! i)"
      "bdf (?ds ! i) = vfParent (?ds ! j)"
      "\<forall>k. i < k \<and> k < j \<longrightarrow> is_vf cfg (?ds ! k) \<and> vfParent (?ds ! k) = vfParent (?ds ! j)"
      by auto
    from same n have sa: "same_adapter cfg (hcas0 ! n) h" by (simp add: list_all2_nthD2)
    from inv0 n(1) len have f: "founded cfg devs (hcas0 ! n)" by (simp add: pf_inv_def)
    have "?ds ! i \<in> set (filter (\<lambda>d. \<not> is_vf cfg d) ?ds)" using i(1,2) j by simp
    also have "\<dots> = set (filter (\<lambda>d. \<not> is_vf cfg d) (bfd_devices (hcas0 ! n)))"
      using sa by (simp add: same_adapter_def)
    finally have "?ds ! i \<in> set (bfd_devices (hcas0 ! n))" by simp
    with founded_all_pf [OF f] have "is_pf cfg (?ds ! i)" by blast
    with i show "\<exists>i<j. is_pf cfg (?ds ! i) \<and> bdf (?ds ! i) = vfParent (?ds ! j) \<and>
                (\<forall>m. i < m \<and> m < j \<longrightarrow> is_vf cfg (?ds ! m) \<and> vfParent (?ds ! m) = vfParent (?ds ! j))"
      by blast
  qed
  have once: "\<forall>v\<in>set devs. is_vf cfg v \<longrightarrow>
        (\<exists>k<length hcas. \<exists>p\<in>set (bfd_devices (hcas ! k)).
           find (\<lambda>d. vfParent v = bdf d) devs = Some p \<and> is_pf cfg p \<and>
           hca_sn (hcas ! k) = sn p \<and>
           v \<in> set (bfd_devices (hcas ! k)) \<and>
           (\<forall>k'<length hcas. v \<in> set (bfd_devices (hcas ! k')) \<longrightarrow> k' = k))"
  proof (intro ballI impI)
    fix v assume v: "v \<in> set devs" and a: "is_vf cfg v"
    from resolved_parent_seen [OF rp v a] mem v a
    obtain k where k: "k < length hcas" "v \<in> set (bfd_devices (hcas ! k))" by blast
    from inv k a have tg: "vf_target devs hcas v = Some k" unfolding vf_inv_def by blast
    then obtain p where p: "find (\<lambda>d. vfParent v = bdf d) devs = Some p"
      and g: "get_hca_by_sn (sn p) hcas = Some k"
      by (auto simp: vf_target_def split: option.splits)
    from p have pin: "p \<in> set devs" and pb: "bdf p = vfParent v"
      by (auto simp: find_Some_iff)
    from wf v a pin pb have pf: "is_pf cfg p" unfolding wf_parents_def by blast
    from placed pin pf g have pk: "p \<in> set (bfd_devices (hcas ! k))"
      unfolding pf_placed_def by fastforce
    from get_hca_by_sn_Some [OF g] have sk: "hca_sn (hcas ! k) = sn p" by simp
    have "\<forall>k'<length hcas. v \<in> set (bfd_devices (hcas ! k')) \<longrightarrow> k' = k"
    proof (intro allI impI)
      fix k' assume k': "k' < length hcas" "v \<in> set (bfd_devices (hcas ! k'))"
      from inv k' a have "vf_target devs hcas v = Some k'" unfolding vf_inv_def by blast
      with tg show "k' = k" by simp
    qed
    with k p pf pk sk show "\<exists>k<length hcas. \<exists>p\<in>set (bfd_devices (hcas ! k)).
           find (\<lambda>d. vfParent v = bdf d) devs = Some p \<and> is_pf cfg p \<and>
           hca_sn (hcas ! k) = sn p \<and>
           v \<in> set (bfd_devices (hcas ! k)) \<and>
           (\<forall>k'<length hcas. v \<in> set (bfd_devices (hcas ! k')) \<longrightarrow> k' = k)" by blast
  qed
  from run once order show ?thesis by blast
qed

theorem C2_vf_in_run_after_parent_witness:
  "resolved_parents ex_cfg [ex_pf, ex_vf1, ex_vf2] \<and>
   (\<exists>hcas. HCAManager_init ex_cfg [ex_pf, ex_vf1, ex_vf2] = Some (Inr hcas) \<and>
     (\<forall>v\<in>set [ex_pf, ex_vf1, ex_vf2]. is_vf ex_cfg v \<longrightarrow>
        (\<exists>k<length hcas. \<exists>p\<in>set (bfd_devices (hcas ! k)).
           find (\<lambda>d. vfParent v = bdf d) [ex_pf, ex_vf1, ex_vf2] = Some p \<and> is_pf ex_cfg p \<and>
           hca_sn (hcas ! k) = sn p \<and>
           v \<in> set (bfd_devices (hcas ! k)) \<and>
           (\<forall>k'<length hcas. v \<in> set (bfd_devices (hcas ! k')) \<longrightarrow> k' = k))) \<and>
     (\<forall>h\<in>set hcas. \<forall>j<length (bfd_devices h). is_vf ex_cfg (bfd_devices h ! j) \<longrightarrow>
        (\<exists>i<j. is_pf ex_cfg (bfd_devices h ! i) \<and>
                bdf (bfd_devices h ! i) = vfParent (bfd_devices h ! j) \<and>
                (\<forall>m. i < m \<and> m < j \<longrightarrow> is_vf ex_cfg (bfd_devices h ! m) \<and>
                      vfParent (bfd_devices h ! m) = vfParent (bfd_devices h ! j)))))"
proof -
  have rp: "resolved_parents ex_cfg [ex_pf, ex_vf1, ex_vf2]" by code_simp
  from rp C2_vf_in_run_after_parent [OF rp] show ?thesis by (rule conjI)
qed

text \<open>
  Claim C3. In the first pass a PF joins the adapter record of its serial
  number at the end of the device sequence; when there is none, a new adapter
  record with this PF alone is appended and gets the number of adapter records
  so far plus one. So after the first pass there is one adapter record for
  every serial number of a PF, in the order in which the serial numbers are
  first met among the device records; the record at position \<open>k\<close> (from 0)
  holds the PFs of its serial number in the order of discovery and shows the
  index \<^verbatim>\<open>#\<close>\<open>k+1\<close>; the second pass changes neither the serial numbers nor
  the indices. Three records of the serial number \<^verbatim>\<open>SN123\<close>, two ports of one
  PF and a second PF, give one adapter record with the three records and the
  index \<^verbatim>\<open>#1\<close>. With a card of the serial number \<^verbatim>\<open>SN100\<close> discovered
  between the two ports of the first, the card \<^verbatim>\<open>SN123\<close> is \<^verbatim>\<open>#1\<close> and the
  card \<^verbatim>\<open>SN100\<close> is \<^verbatim>\<open>#2\<close>.
\<close>

theorem C3_first_pass_groups_by_serial:
  "(\<forall>hcas d. is_pf cfg d \<longrightarrow>
      handle_pf cfg hcas d = Some (Inr
        (if sn d \<in> hca_sn ` set hcas then map (join_sn d) hcas
         else hcas @ [\<lparr> bfd_devices = [d], hca_sn = sn d, hca_pn = pn d, hca_fw = fw d,
                         hca_description = description d, hca_tempr = tempr d,
                         hca_index_raw = Some (length hcas + 1) \<rparr>]))) \<and>
   (\<forall>devs. \<exists>hcas0. handle_all_pfs cfg devs [] = Some (Inr hcas0) \<and>
      map hca_sn hcas0 = first_seen (map sn (filter (is_pf cfg) devs)) \<and>
      distinct (map hca_sn hcas0) \<and>
      map hca_index_raw hcas0 = map Some [1..<Suc (length hcas0)] \<and>
      (\<forall>k<length hcas0.
         bfd_devices (hcas0 ! k) = filter (\<lambda>d. is_pf cfg d \<and> sn d = hca_sn (hcas0 ! k)) devs \<and>
         hca_index (hcas0 ! k) = ''#'' @ str_nat (k + 1)) \<and>
      (\<forall>hcas. HCAManager_init cfg devs = Some (Inr hcas) \<longrightarrow>
         map hca_sn hcas = map hca_sn hcas0 \<and>
         map hca_index_raw hcas = map hca_index_raw hcas0 \<and>
         map hca_index hcas = map hca_index hcas0)) \<and>
   HCAManager_init ex_cfg [ex_pf, ex_pf\<lparr>port := ''2''\<rparr>, ex_pf\<lparr>bdf := ''0000:02:00.0''\<rparr>] =
     Some (Inr [ex_hca [ex_pf, ex_pf\<lparr>port := ''2''\<rparr>, ex_pf\<lparr>bdf := ''0000:02:00.0''\<rparr>]]) \<and>
   hca_index (ex_hca [ex_pf, ex_pf\<lparr>port := ''2''\<rparr>, ex_pf\<lparr>bdf := ''0000:02:00.0''\<rparr>]) = ''#1'' \<and>
   HCAManager_init ex_cfg [ex_pf, ex_pf2, ex_pf\<lparr>port := ''2''\<rparr>] =
     Some (Inr [ex_hca [ex_pf, ex_pf\<lparr>port := ''2''\<rparr>],
                (ex_hca [ex_pf2])\<lparr>hca_sn := ''SN100'', hca_pn := ''MCX4121A'', hca_index_raw := Some 2\<rparr>]) \<and>
   map hca_index [ex_hca [ex_pf, ex_pf\<lparr>port := ''2''\<rparr>],
                (ex_hca [ex_pf2])\<lparr>hca_sn := ''SN100'', hca_pn := ''MCX4121A'', hca_index_raw := Some 2\<rparr>] =
     [''#1'', ''#2''] \<and>
   hca_index ((ex_hca [ex_pf])\<lparr>hca_index_raw := Some 12\<rparr>) = ''#12''"
proof (intro conjI allI impI)
  fix hcas d assume "is_pf cfg d"
  then show "handle_pf cfg hcas d = Some (Inr
        (if sn d \<in> hca_sn ` set hcas then map (join_sn d) hcas
         else hcas @ [\<lparr> bfd_devices = [d], hca_sn = sn d, hca_pn = pn d, hca_fw = fw d,
                         hca_description = description d, hca_tempr = tempr d,
                         hca_index_raw = Some (length hcas + 1) \<rparr>]))"
    by (rule handle_pf_step)
next
  fix devs
  from first_pass obtain hcas0 where p1: "handle_all_pfs cfg devs [] = Some (Inr hcas0)"
    and inv0: "pf_inv cfg devs hcas0" by blast
  have idx: "map hca_index_raw hcas0 = map Some [1..<Suc (length hcas0)]"
    using inv0 by (simp add: pf_inv_def)
  have dist: "distinct (map hca_sn hcas0)" using inv0 by (simp add: pf_inv_def)
  have ord: "map hca_sn hcas0 = first_seen (map sn (filter (is_pf cfg) devs))"
    by (rule first_pass_order [OF p1])
  have each: "\<forall>k<length hcas0.
         bfd_devices (hcas0 ! k) = filter (\<lambda>d. is_pf cfg d \<and> sn d = hca_sn (hcas0 ! k)) devs \<and>
         hca_index (hcas0 ! k) = ''#'' @ str_nat (k + 1)"
  proof (intro allI impI conjI)
    fix k assume k: "k < length hcas0"
    with inv0 have "founded cfg devs (hcas0 ! k)" by (simp add: pf_inv_def)
    then show "bfd_devices (hcas0 ! k) = filter (\<lambda>d. is_pf cfg d \<and> sn d = hca_sn (hcas0 ! k)) devs"
      by (simp add: founded_def)
    from idx k show "hca_index (hcas0 ! k) = ''#'' @ str_nat (k + 1)" by (rule idx_nth)
  qed
  have keep: "\<forall>hcas. HCAManager_init cfg devs = Some (Inr hcas) \<longrightarrow>
         map hca_sn hcas = map hca_sn hcas0 \<and>
         map hca_index_raw hcas = map hca_index_raw hcas0 \<and>
         map hca_index hcas = map hca_index hcas0"
  proof (intro allI impI)
    fix hcas assume "HCAManager_init cfg devs = Some (Inr hcas)"
    with p1 have "handle_all_vfs cfg devs devs hcas0 = Some (Inr hcas)"
      by (simp add: HCAManager_init_def)
    then have same: "list_all2 (same_adapter cfg) hcas0 hcas" by (rule handle_all_vfs_same)
    from same_map_idx [OF same] same_map_sn [OF same] map_hca_index [OF same_map_idx [OF same]]
    show "map hca_sn hcas = map hca_sn hcas0 \<and>
         map hca_index_raw hcas = map hca_index_raw hcas0 \<and>
         map hca_index hcas = map hca_index hcas0" by simp
  qed
  from p1 ord dist idx each keep
  show "\<exists>hcas0. handle_all_pfs cfg devs [] = Some (Inr hcas0) \<and>
      map hca_sn hcas0 = first_seen (map sn (filter (is_pf cfg) devs)) \<and>
      distinct (map hca_sn hcas0) \<and>
      map hca_index_raw hcas0 = map Some [1..<Suc (length hcas0)] \<and>
      (\<forall>k<length hcas0.
         bfd_devices (hcas0 ! k) = filter (\<lambda>d. is_pf cfg d \<and> sn d = hca_sn (hcas0 ! k)) devs \<and>
         hca_index (hcas0 ! k) = ''#'' @ str_nat (k + 1)) \<and>
      (\<forall>hcas. HCAManager_init cfg devs = Some (Inr hcas) \<longrightarrow>
         map hca_sn hcas = map hca_sn hcas0 \<and>
         map hca_index_raw hcas = map hca_index_raw hcas0 \<and>
         map hca_index hcas = map hca_index hcas0)"
    by (intro exI [of _ hcas0] conjI)
next
  show "HCAManager_init ex_cfg [ex_pf, ex_pf\<lparr>port := ''2''\<rparr>, ex_pf\<lparr>bdf := ''0000:02:00.0''\<rparr>] =
     Some (Inr [ex_hca [ex_pf, ex_pf\<lparr>port := ''2''\<rparr>, ex_pf\<lparr>bdf := ''0000:02:00.0''\<rparr>]])"
    by code_simp
next
  show "hca_index (ex_hca [ex_pf, ex_pf\<lparr>port := ''2''\<rparr>, ex_pf\<lparr>bdf := ''0000:02:00.0''\<rparr>]) = ''#1''"
    by code_simp
next
  show "HCAManager_init ex_cfg [ex_pf, ex_pf2, ex_pf\<lparr>port := ''2''\<rparr>] =
     Some (Inr [ex_hca [ex_pf, ex_pf\<lparr>port := ''2''\<rparr>],
                (ex_hca [ex_pf2])\<lparr>hca_sn := ''SN100'', hca_pn := ''MCX4121A'', hca_index_raw := Some 2\<rparr>])"
    by code_simp
next
  show "map hca_index [ex_hca [ex_pf, ex_pf\<lparr>port := ''2''\<rparr>],
                (ex_hca [ex_pf2])\<lparr>hca_sn := ''SN100'', hca_pn := ''MCX4121A'', hca_index_raw := Some 2\<rparr>] =
     [''#1'', ''#2'']"
    by code_simp
next
  show "hca_index ((ex_hca [ex_pf])\<lparr>hca_index_raw := Some 12\<rparr>) = ''#12''"
    by code_simp
qed

theorem C3_first_pass_groups_by_serial_witness:
  "is_pf ex_cfg (ex_pf\<lparr>port := ''2''\<rparr>) \<and>
   handle_pf ex_cfg [ex_hca [ex_pf]] (ex_pf\<lparr>port := ''2''\<rparr>) =
     Some (Inr [ex_hca [ex_pf, ex_pf\<lparr>port := ''2''\<rparr>]]) \<and>
   HCAManager_init ex_cfg [ex_pf, ex_pf2, ex_vf1] =
     Some (Inr [ex_hca [ex_pf, ex_vf1],
                (ex_hca [ex_pf2])\<lparr>hca_sn := ''SN100'', hca_pn := ''MCX4121A'', hca_index_raw := Some 2\<rparr>]) \<and>
   (\<exists>hcas0. handle_all_pfs ex_cfg [ex_pf, ex_pf2, ex_vf1] [] = Some (Inr hcas0) \<and>
      map hca_sn hcas0 = [''SN123'', ''SN100''] \<and>
      map hca_index hcas0 = [''#1'', ''#2''])"
proof -
  let ?devs = "[ex_pf, ex_pf2, ex_vf1]"
  let ?res = "[ex_hca [ex_pf, ex_vf1],
                (ex_hca [ex_pf2])\<lparr>hca_sn := ''SN100'', hca_pn := ''MCX4121A'', hca_index_raw := Some 2\<rparr>]"
  have pf: "is_pf ex_cfg (ex_pf\<lparr>port := ''2''\<rparr>)" by code_simp
  have run: "HCAManager_init ex_cfg ?devs = Some (Inr ?res)" by code_simp
  have fs: "first_seen (map sn (filter (is_pf ex_cfg) ?devs)) = [''SN123'', ''SN100'']" by code_simp
  have ix: "map hca_index ?res = [''#1'', ''#2'']" by code_simp
  note main = C3_first_pass_groups_by_serial [of ex_cfg]
  from main pf
  have "handle_pf ex_cfg [ex_hca [ex_pf]] (ex_pf\<lparr>port := ''2''\<rparr>) = Some (Inr
        (if sn (ex_pf\<lparr>port := ''2''\<rparr>) \<in> hca_sn ` set [ex_hca [ex_pf]]
         then map (join_sn (ex_pf\<lparr>port := ''2''\<rparr>)) [ex_hca [ex_pf]]
         else [ex_hca [ex_pf]] @
           [\<lparr> bfd_devices = [ex_pf\<lparr>port := ''2''\<rparr>], hca_sn = sn (ex_pf\<lparr>port := ''2''\<rparr>),
               hca_pn = pn (ex_pf\<lparr>port := ''2''\<rparr>), hca_fw = fw (ex_pf\<lparr>port := ''2''\<rparr>),
               hca_description = description (ex_pf\<lparr>port := ''2''\<rparr>),
               hca_tempr = tempr (ex_pf\<lparr>port := ''2''\<rparr>),
               hca_index_raw = Some (length [ex_hca [ex_pf]] + 1) \<rparr>]))"
    by blast
  then have step: "handle_pf ex_cfg [ex_hca [ex_pf]] (ex_pf\<lparr>port := ''2''\<rparr>) =
     Some (Inr [ex_hca [ex_pf, ex_pf\<lparr>port := ''2''\<rparr>]])"
    by (simp add: ex_hca_def ex_pf_def join_sn_def)
  from main have "\<exists>hcas0. handle_all_pfs ex_cfg ?devs [] = Some (Inr hcas0) \<and>
      map hca_sn hcas0 = first_seen (map sn (filter (is_pf ex_cfg) ?devs)) \<and>
      (\<forall>hcas. HCAManager_init ex_cfg ?devs = Some (Inr hcas) \<longrightarrow>
         map hca_index hcas = map hca_index hcas0)"
    by blast
  then obtain hcas0 where h: "handle_all_pfs ex_cfg ?devs [] = Some (Inr hcas0)"
    "map hca_sn hcas0 = first_seen (map sn (filter (is_pf ex_cfg) ?devs))"
    "map hca_index ?res = map hca_index hcas0"
    using run by blast
  from h(2) fs have a: "map hca_sn hcas0 = [''SN123'', ''SN100'']" by (simp only:)
  from h(3) ix have b: "map hca_index hcas0 = [''#1'', ''#2'']" by (simp only:)
  from h(1) a b have "\<exists>hcas0. handle_all_pfs ex_cfg ?devs [] = Some (Inr hcas0) \<and>
      map hca_sn hcas0 = [''SN123'', ''SN100''] \<and>
      map hca_index hcas0 = [''#1'', ''#2'']" by (intro exI [of _ hcas0] conjI)
  with pf step run show ?thesis by (intro conjI)
qed

text \<open>
  Claim C9. \<^verbatim>\<open>MlnxHCA.__init__\<close> returns an adapter record for a PF and for
  nothing else; for a VF it raises \<^verbatim>\<open>ValueError\<close>. Every adapter record of
  an assembly that returns has a device, its first device is a PF among the
  discovered records, the adapter record is the one \<^verbatim>\<open>MlnxHCA.__init__\<close> made
  of that PF but for the devices added since and the index, and this PF is in
  the device sequence once (the discovered records being different objects).
\<close>

theorem C9_adapter_founded_by_one_pf:
  "(\<forall>d. (\<exists>h. MlnxHCA_init cfg d = Inr h) \<longleftrightarrow> is_pf cfg d) \<and>
   (\<forall>d. is_vf cfg d \<longrightarrow> MlnxHCA_init cfg d = Inl ValueError) \<and>
   (\<forall>devs hcas. HCAManager_init cfg devs = Some (Inr hcas) \<longrightarrow>
      (\<forall>h\<in>set hcas. bfd_devices h \<noteq> [] \<and>
         (\<exists>d\<in>set devs. is_pf cfg d \<and> hd (bfd_devices h) = d \<and>
            MlnxHCA_init cfg d = Inr (h\<lparr>bfd_devices := [d], hca_index_raw := None\<rparr>) \<and>
            (distinct devs \<longrightarrow> count_list (bfd_devices h) d = 1))))"
proof (intro conjI allI impI ballI)
  fix d
  show "(\<exists>h. MlnxHCA_init cfg d = Inr h) \<longleftrightarrow> is_pf cfg d"
    by (simp add: MlnxHCA_init_def)
next
  fix d assume "is_vf cfg d"
  then have "\<not> is_pf cfg d" using is_pf_not_vf by blast
  then show "MlnxHCA_init cfg d = Inl ValueError" by (simp add: MlnxHCA_init_def)
next
  fix devs hcas h
  assume run: "HCAManager_init cfg devs = Some (Inr hcas)" and h: "h \<in> set hcas"
  from assembled [OF run] obtain hcas0 where inv0: "pf_inv cfg devs hcas0"
    and same: "list_all2 (same_adapter cfg) hcas0 hcas" by blast
  from h obtain n where n: "n < length hcas" "h = hcas ! n" by (auto simp: in_set_conv_nth)
  let ?h0 = "hcas0 ! n"
  from same n have sa: "same_adapter cfg ?h0 h" by (simp add: list_all2_nthD2)
  from same n(1) have "n < length hcas0" by (simp add: list_all2_lengthD)
  with inv0 have f: "founded cfg devs ?h0" by (simp add: pf_inv_def)
  then have ne0: "bfd_devices ?h0 \<noteq> []"
    and flt: "bfd_devices ?h0 = filter (\<lambda>d. is_pf cfg d \<and> sn d = hca_sn ?h0) devs"
    and ini: "MlnxHCA_init cfg (hd (bfd_devices ?h0)) =
       Inr (?h0\<lparr>bfd_devices := [hd (bfd_devices ?h0)], hca_index_raw := None\<rparr>)"
    unfolding founded_def by blast+
  from sa ne0 have ne: "bfd_devices h \<noteq> []" and hd: "hd (bfd_devices h) = hd (bfd_devices ?h0)"
    by (simp_all add: same_adapter_def)
  show "bfd_devices h \<noteq> []" by (rule ne)
  let ?d = "hd (bfd_devices h)"
  have din: "?d \<in> set (bfd_devices ?h0)" using ne0 hd by simp
  with founded_all_pf [OF f] have dpf: "is_pf cfg ?d" and ddev: "?d \<in> set devs" by blast+
  have init: "MlnxHCA_init cfg ?d = Inr (h\<lparr>bfd_devices := [?d], hca_index_raw := None\<rparr>)"
    using ini hd same_adapter_reset [OF sa, of "[?d]"] by simp
  have cnt: "distinct devs \<longrightarrow> count_list (bfd_devices h) ?d = 1"
  proof
    assume dist: "distinct devs"
    have nvf: "\<not> is_vf cfg ?d" using dpf is_pf_not_vf by blast
    have "count_list (bfd_devices h) ?d = count_list (filter (\<lambda>d. \<not> is_vf cfg d) (bfd_devices h)) ?d"
      using nvf by (simp add: count_list_filter)
    also have "\<dots> = count_list (filter (\<lambda>d. \<not> is_vf cfg d) (bfd_devices ?h0)) ?d"
      using sa by (simp add: same_adapter_def)
    also have "\<dots> = count_list (bfd_devices ?h0) ?d"
      using nvf by (simp add: count_list_filter)
    also have "\<dots> = 1"
    proof (rule count_list_distinct [OF _ din])
      show "distinct (bfd_devices ?h0)" by (subst flt) (simp add: dist)
    qed
    finally show "count_list (bfd_devices h) ?d = 1" .
  qed
  from ddev dpf init cnt
  show "\<exists>d\<in>set devs. is_pf cfg d \<and> hd (bfd_devices h) = d \<and>
            MlnxHCA_init cfg d = Inr (h\<lparr>bfd_devices := [d], hca_index_raw := None\<rparr>) \<and>
            (distinct devs \<longrightarrow> count_list (bfd_devices h) d = 1)"
    by blast
qed

theorem C9_adapter_founded_by_one_pf_witness:
  "is_vf ex_cfg ex_vf1 \<and> MlnxHCA_init ex_cfg ex_vf1 = Inl ValueError \<and>
   HCAManager_init ex_cfg [ex_pf, ex_vf1] = Some (Inr [ex_hca [ex_pf, ex_vf1]]) \<and>
   distinct [ex_pf, ex_vf1] \<and>
   bfd_devices (ex_hca [ex_pf, ex_vf1]) \<noteq> [] \<and>
   is_pf ex_cfg (hd (bfd_devices (ex_hca [ex_pf, ex_vf1]))) \<and>
   count_list (bfd_devices (ex_hca [ex_pf, ex_vf1])) (hd (bfd_devices (ex_hca [ex_pf, ex_vf1]))) = 1"
proof -
  have vf: "is_vf ex_cfg ex_vf1" by code_simp
  have run: "HCAManager_init ex_cfg [ex_pf, ex_vf1] = Some (Inr [ex_hca [ex_pf, ex_vf1]])"
    by code_simp
  have dist: "distinct [ex_pf, ex_vf1]" by code_simp
  from C9_adapter_founded_by_one_pf [of ex_cfg] vf
  have a: "MlnxHCA_init ex_cfg ex_vf1 = Inl ValueError" by blast
  from C9_adapter_founded_by_one_pf [of ex_cfg] run
  have "\<forall>h\<in>set [ex_hca [ex_pf, ex_vf1]]. bfd_devices h \<noteq> [] \<and>
         (\<exists>d\<in>set [ex_pf, ex_vf1]. is_pf ex_cfg d \<and> hd (bfd_devices h) = d \<and>
            MlnxHCA_init ex_cfg d = Inr (h\<lparr>bfd_devices := [d], hca_index_raw := None\<rparr>) \<and>
            (distinct [ex_pf, ex_vf1] \<longrightarrow> count_list (bfd_devices h) d = 1))"
    by blast
  with dist have "bfd_devices (ex_hca [ex_pf, ex_vf1]) \<noteq> [] \<and>
   is_pf ex_cfg (hd (bfd_devices (ex_hca [ex_pf, ex_vf1]))) \<and>
   count_list (bfd_devices (ex_hca [ex_pf, ex_vf1])) (hd (bfd_devices (ex_hca [ex_pf, ex_vf1]))) = 1"
    by auto
  with vf a run dist show ?thesis by blast
qed

section \<open>The claims about the output engine\<close>




text \<open>
  Claim C5, as stated: after the selection the fields that stay keep the order
  of the list, in the summary and in the device mappings. The mappings are
  dictionaries and keep no order of their own; the order of the fields is the
  one in which they are printed. In the format \<^verbatim>\<open>json\<close> the report is printed
  by \<^verbatim>\<open>json.dumps\<close> with \<^verbatim>\<open>sort_keys=True\<close>, so the fields of every mapping
  come in the ascending order of their names: with the positive list
  \<^verbatim>\<open>SN,Dev,State,PCI_addr\<close> the summary is printed \<^verbatim>\<open>Dev\<close>, \<^verbatim>\<open>SN\<close> and a
  device \<^verbatim>\<open>PCI_addr\<close>, \<^verbatim>\<open>State\<close>. And in the format \<^verbatim>\<open>human_readable\<close> a
  field that the list names twice is printed at the place of its last mention,
  behind an empty line: the list \<^verbatim>\<open>Dev,SN,Dev\<close> prints \<^verbatim>\<open>SN\<close> before
  \<^verbatim>\<open>Dev\<close>.
\<close>

theorem C5_counterexample_json_order:
  \<open>(ex_store (3 := [''SN'', ''Dev'', ''State'', ''PCI_addr'']))
      (output_fields_filter_positive (ex_cfg\<lparr>output_format := ''json''\<rparr>)) =
     [''SN'', ''Dev'', ''State'', ''PCI_addr''] \<and>
   printed_texts (print_output ex_compile ex_encode (ex_cfg\<lparr>output_format := ''json''\<rparr>)
      (ex_store (3 := [''SN'', ''Dev'', ''State'', ''PCI_addr'']))
      (ex_out [ex_item [ex_dev_actv, ex_dev_down]])) =
   Some [str_join [CHR 0x0A]
     [''['',
      ''    {'',
      ''        "bdf_devices": ['',
      ''            {'',
      ''                "PCI_addr": "0000:01:00.0", '',
      ''                "State": "actv"'',
      ''            }, '',
      ''            {'',
      ''                "PCI_addr": "0000:01:00.1", '',
      ''                "State": "down"'',
      ''            }'',
      ''        ], '',
      ''        "hca_info": {'',
      ''            "Dev": "#1", '',
      ''            "SN": "SN123"'',
      ''        }'',
      ''    }'',
      '']'']] \<and>
   print_hca_info [''Dev'', ''SN'', ''Dev''] [(''SN'', PyStr ''SN123''), (''Dev'', PyStr ''#1'')] =
     ['''', '' SN: SN123'', ''Dev #1'']\<close>
  by code_simp

text \<open>
  Claim C5, amended. A positive list, when not empty, becomes the list of the
  order and the negative list is not looked at; with an empty positive list, a
  negative list that is not empty takes its fields out of the list of the
  order, which keeps the order of the fields that stay. Then every mapping of
  every report item, summary and device alike, is cut down to the fields of
  that list. In the format \<^verbatim>\<open>human_readable\<close>, when the list names no field
  twice, the lines of a summary and the columns of the device table are printed
  in the order of the list: \<^verbatim>\<open>print_hca_info\<close> and \<^verbatim>\<open>print_bdf_devices\<close> do
  so (the latter for all column widths that give every column a width that is
  not negative), and without a value filter \<^verbatim>\<open>print_output\<close> prints the
  separator and then, for every report item, the summary, the separator, the
  table and the separator. In the format \<^verbatim>\<open>json\<close> it prints the text of
  \<^verbatim>\<open>json.dumps\<close>, in which the members of every mapping come in the
  ascending order of their keys. The items are those \<^verbatim>\<open>output_info\<close> builds,
  with the same keys in every summary and in every device mapping
  (\<open>assembled_report_uniform\<close>), and the value filter keeps them so
  (\<open>where_pure_uniform\<close>).
\<close>

theorem C5_field_selection:
  assumes uni: "uniform_keys (output out)"
  shows "\<exists>st' out'. apply_select_output_filters cfg st out = Inr (st', out') \<and>
     (st (output_fields_filter_positive cfg) \<noteq> [] \<longrightarrow>
        st' = st \<and> self_output_order out' = output_fields_filter_positive cfg) \<and>
     (st (output_fields_filter_positive cfg) = [] \<and> output_fields_filter_negative cfg \<noteq> [] \<longrightarrow>
        self_output_order out' = self_output_order out \<and>
        st' = st(self_output_order out :=
                   decrement (output_fields_filter_negative cfg) (st (self_output_order out))) \<and>
        (distinct (st (self_output_order out)) \<longrightarrow>
           st' (self_output_order out) =
             filter (\<lambda>k. k \<notin> set (output_fields_filter_negative cfg)) (st (self_output_order out)))) \<and>
     output out' = map (restrict_item (st' (self_output_order out'))) (output out) \<and>
     (distinct (st' (self_output_order out')) \<longrightarrow>
        (\<forall>hca\<in>set (output out').
           print_hca_info (st' (self_output_order out')) (hca_info hca) =
             map (summary_line (hca_info hca)) (present (st' (self_output_order out')) (hca_info hca)) \<and>
           (\<forall>cw sep.
              has_widths cw (present (st' (self_output_order out')) (hd (bdf_devices hca))) \<longrightarrow>
              print_bdf_devices (st' (self_output_order out')) cw sep (bdf_devices hca) =
                Inr (table_lines (st' (self_output_order out')) cw sep (bdf_devices hca))))) \<and>
     (\<forall>re_compile enc.
        where_output_filter cfg = [] \<and> output_format cfg = ''human_readable'' \<and>
        column_width out' = [] \<and> distinct (st' (self_output_order out')) \<and>
        str_rows (st' (self_output_order out')) (device_rows (output out')) \<longrightarrow>
        (\<exists>out''. print_output re_compile enc cfg st out =
           Inr (st', out'', separator out'' #
                  report_lines (st' (self_output_order out')) (column_width out'') (separator out'')
                    (output out')))) \<and>
     (\<forall>re_compile enc.
        where_output_filter cfg = [] \<and> output_format cfg = ''json'' \<longrightarrow>
        print_output re_compile enc cfg st out = Inr (st', out', [json_dumps enc (output out')])) \<and>
     (\<forall>hca\<in>set (output out').
        sorted (map fst (json_members (hca_info hca))) \<and>
        mset (json_members (hca_info hca)) = mset (hca_info hca) \<and>
        (\<forall>d\<in>set (bdf_devices hca).
           sorted (map fst (json_members d)) \<and> mset (json_members d) = mset d))"
proof -
  obtain st1 out1 where co: "choose_order cfg st out = (st1, out1)" by (cases "choose_order cfg st out")
  let ?ord = "st1 (self_output_order out1)"
  let ?out' = "out1\<lparr>output := map (pop_keys (keys_to_remove ?ord (output out))) (output out)\<rparr>"
  have run: "apply_select_output_filters cfg st out = Inr (st1, ?out')"
    using uniform_no_index_error [OF uni] co by (simp add: apply_select_unfold)
  have so: "self_output_order ?out' = self_output_order out1" by simp
  have items: "output ?out' = map (restrict_item (st1 (self_output_order ?out'))) (output out)"
    using pop_keys_uniform [OF uni] by simp
  have p: "st (output_fields_filter_positive cfg) \<noteq> [] \<longrightarrow>
        st1 = st \<and> self_output_order ?out' = output_fields_filter_positive cfg"
    using co by (auto simp: choose_order_positive)
  have n: "st (output_fields_filter_positive cfg) = [] \<and> output_fields_filter_negative cfg \<noteq> [] \<longrightarrow>
        self_output_order ?out' = self_output_order out \<and>
        st1 = st(self_output_order out :=
                   decrement (output_fields_filter_negative cfg) (st (self_output_order out))) \<and>
        (distinct (st (self_output_order out)) \<longrightarrow>
           st1 (self_output_order out) =
             filter (\<lambda>k. k \<notin> set (output_fields_filter_negative cfg)) (st (self_output_order out)))"
    using co by (auto simp: choose_order_negative decrement_distinct)
  have shape: "bdf_devices hca \<noteq> [] \<and>
         (\<forall>line\<in>set (bdf_devices hca). set (dict_keys line) = set (dict_keys (hd (bdf_devices hca))))"
    if "hca \<in> set (output ?out')" for hca
    using restrict_uniform [OF uni, of hca "st1 (self_output_order ?out')"] that
    unfolding items by blast
  have pr: "distinct (st1 (self_output_order ?out')) \<longrightarrow>
        (\<forall>hca\<in>set (output ?out').
           print_hca_info (st1 (self_output_order ?out')) (hca_info hca) =
             map (summary_line (hca_info hca)) (present (st1 (self_output_order ?out')) (hca_info hca)) \<and>
           (\<forall>cw sep.
              has_widths cw (present (st1 (self_output_order ?out')) (hd (bdf_devices hca))) \<longrightarrow>
              print_bdf_devices (st1 (self_output_order ?out')) cw sep (bdf_devices hca) =
                Inr (table_lines (st1 (self_output_order ?out')) cw sep (bdf_devices hca))))"
  proof (intro impI ballI conjI allI)
    fix hca assume d: "distinct (st1 (self_output_order ?out'))"
    show "print_hca_info (st1 (self_output_order ?out')) (hca_info hca) =
             map (summary_line (hca_info hca)) (present (st1 (self_output_order ?out')) (hca_info hca))"
      by (rule print_hca_info_order [OF d])
  next
    fix hca cw sep
    assume d: "distinct (st1 (self_output_order ?out'))" and h: "hca \<in> set (output ?out')"
      and w: "has_widths cw (present (st1 (self_output_order ?out')) (hd (bdf_devices hca)))"
    from shape [OF h] have ne: "bdf_devices hca \<noteq> []"
      and u: "\<forall>line\<in>set (bdf_devices hca). set (dict_keys line) = set (dict_keys (hd (bdf_devices hca)))"
      by blast+
    show "print_bdf_devices (st1 (self_output_order ?out')) cw sep (bdf_devices hca) =
                Inr (table_lines (st1 (self_output_order ?out')) cw sep (bdf_devices hca))"
      by (rule print_bdf_devices_order [OF d ne u w])
  qed
  have tsh: "\<forall>hca\<in>set (output ?out'). table_shape hca"
    using shape unfolding table_shape_def by blast
  have hu: "\<forall>re_compile enc.
        where_output_filter cfg = [] \<and> output_format cfg = ''human_readable'' \<and>
        column_width ?out' = [] \<and> distinct (st1 (self_output_order ?out')) \<and>
        str_rows (st1 (self_output_order ?out')) (device_rows (output ?out')) \<longrightarrow>
        (\<exists>out''. print_output re_compile enc cfg st out =
           Inr (st1, out'', separator out'' #
                  report_lines (st1 (self_output_order ?out')) (column_width out'') (separator out'')
                    (output ?out')))"
  proof (intro allI impI)
    fix re_compile enc
    assume a: "where_output_filter cfg = [] \<and> output_format cfg = ''human_readable'' \<and>
        column_width ?out' = [] \<and> distinct (st1 (self_output_order ?out')) \<and>
        str_rows (st1 (self_output_order ?out')) (device_rows (output ?out'))"
    from a have a1: "where_output_filter cfg = []" and a2: "output_format cfg = ''human_readable''"
      and a3: "column_width ?out' = []" and a4: "distinct (st1 (self_output_order ?out'))"
      and a5: "str_rows (st1 (self_output_order ?out')) (device_rows (output ?out'))" by blast+
    show "\<exists>out''. print_output re_compile enc cfg st out =
           Inr (st1, out'', separator out'' #
                  report_lines (st1 (self_output_order ?out')) (column_width out'') (separator out'')
                    (output ?out'))"
      by (rule print_output_human [OF a1 a2 run a3 a4 a5 tsh])
  qed
  have jo: "\<forall>re_compile enc.
        where_output_filter cfg = [] \<and> output_format cfg = ''json'' \<longrightarrow>
        print_output re_compile enc cfg st out = Inr (st1, ?out', [json_dumps enc (output ?out')])"
  proof (intro allI impI)
    fix re_compile enc
    assume a: "where_output_filter cfg = [] \<and> output_format cfg = ''json''"
    then have a1: "where_output_filter cfg = []" and a2: "output_format cfg = ''json''" by blast+
    show "print_output re_compile enc cfg st out = Inr (st1, ?out', [json_dumps enc (output ?out')])"
      by (rule print_output_json [OF a1 a2 run])
  qed
  have js: "\<forall>hca\<in>set (output ?out').
        sorted (map fst (json_members (hca_info hca))) \<and>
        mset (json_members (hca_info hca)) = mset (hca_info hca) \<and>
        (\<forall>d\<in>set (bdf_devices hca).
           sorted (map fst (json_members d)) \<and> mset (json_members d) = mset d)"
    using json_members_sorted by blast
  show ?thesis
    by (intro exI [of _ st1] exI [of _ ?out'] conjI) (rule run, rule p, rule n, rule items, rule pr, rule hu, rule jo, rule js)
qed

theorem C5_field_selection_witness:
  "uniform_keys (output (ex_out [ex_item [ex_dev_actv, ex_dev_down]])) \<and>
   (ex_store (3 := [''Dev'', ''PN'', ''SN'', ''State'', ''PCI_addr''])) (output_fields_filter_positive ex_cfg) =
     [''Dev'', ''PN'', ''SN'', ''State'', ''PCI_addr''] \<and>
   has_widths [(''PCI_addr'', 12), (''State'', 5)]
     (present [''Dev'', ''PN'', ''SN'', ''State'', ''PCI_addr''] ex_dev_actv) \<and>
   apply_select_output_filters ex_cfg (ex_store (3 := [''Dev'', ''PN'', ''SN'', ''State'', ''PCI_addr'']))
       (ex_out [ex_item [ex_dev_actv, ex_dev_down]]) =
     Inr (ex_store (3 := [''Dev'', ''PN'', ''SN'', ''State'', ''PCI_addr'']),
          (ex_out [\<lparr> hca_info = [(''SN'', PyStr ''SN123''), (''PN'', PyStr ''MCX556A''),
                                   (''Dev'', PyStr ''#1'')],
                     bdf_devices = [ex_dev_actv, ex_dev_down] \<rparr>])\<lparr>self_output_order := 3\<rparr>) \<and>
   print_hca_info [''Dev'', ''PN'', ''SN'', ''State'', ''PCI_addr'']
       [(''SN'', PyStr ''SN123''), (''PN'', PyStr ''MCX556A''), (''Dev'', PyStr ''#1'')] =
     [''Dev #1'', '' PN: MCX556A'', '' SN: SN123''] \<and>
   print_bdf_devices [''Dev'', ''PN'', ''SN'', ''State'', ''PCI_addr'']
       [(''PCI_addr'', 12), (''State'', 5)] ''---------------------'' [ex_dev_actv, ex_dev_down] =
     Inr [''State |   PCI_addr  '',
          ''---------------------'',
          ''actv  | 0000:01:00.0'',
          ''down  | 0000:01:00.1''] \<and>
   printed_texts (print_output ex_compile ex_encode ex_cfg
       (ex_store (3 := [''Dev'', ''PN'', ''SN'', ''State'', ''PCI_addr'']))
       (ex_out [ex_item [ex_dev_actv, ex_dev_down]])) =
     Some [''---------------------'',
           str_join [CHR 0x0A] [''Dev #1'', '' PN: MCX556A'', '' SN: SN123''],
           ''---------------------'',
           ''State |   PCI_addr  '',
           ''---------------------'',
           ''actv  | 0000:01:00.0'',
           ''down  | 0000:01:00.1'',
           ''---------------------'']"
proof -
  let ?L = "[''Dev'', ''PN'', ''SN'', ''State'', ''PCI_addr'']"
  let ?st = "ex_store (3 := ?L)"
  let ?out = "ex_out [ex_item [ex_dev_actv, ex_dev_down]]"
  let ?info = "[(''SN'', PyStr ''SN123''), (''PN'', PyStr ''MCX556A''), (''Dev'', PyStr ''#1'')]"
  let ?item = "\<lparr> hca_info = ?info, bdf_devices = [ex_dev_actv, ex_dev_down] \<rparr>"
  let ?cw = "[(''PCI_addr'', 12::int), (''State'', 5)]"
  let ?sep = "''---------------------''"
  have u: "uniform_keys (output ?out)" by code_simp
  have o3: "output_fields_filter_positive ex_cfg = 3" by (simp add: ex_cfg_def)
  have pl: "?st (output_fields_filter_positive ex_cfg) = ?L" by (simp add: o3)
  then have p: "?st (output_fields_filter_positive ex_cfg) \<noteq> []" by simp
  have hw: "has_widths ?cw (present ?L ex_dev_actv)" by code_simp
  from C5_field_selection [OF u, where cfg = ex_cfg and st = "?st"] p
  obtain st' out' where run: "apply_select_output_filters ex_cfg ?st ?out = Inr (st', out')"
    and st': "st' = ?st" and ord: "self_output_order out' = output_fields_filter_positive ex_cfg"
    and items: "output out' = map (restrict_item (st' (self_output_order out'))) (output ?out)"
    and pr: "distinct (st' (self_output_order out')) \<longrightarrow>
        (\<forall>hca\<in>set (output out').
           print_hca_info (st' (self_output_order out')) (hca_info hca) =
             map (summary_line (hca_info hca)) (present (st' (self_output_order out')) (hca_info hca)) \<and>
           (\<forall>cw sep.
              has_widths cw (present (st' (self_output_order out')) (hd (bdf_devices hca))) \<longrightarrow>
              print_bdf_devices (st' (self_output_order out')) cw sep (bdf_devices hca) =
                Inr (table_lines (st' (self_output_order out')) cw sep (bdf_devices hca))))"
    by blast
  have L: "st' (self_output_order out') = ?L" unfolding st' ord by (rule pl)
  have lit: "output out' = [?item]"
    unfolding items L
    by (simp add: ex_out_def ex_item_def ex_dev_actv_def ex_dev_down_def restrict_item_def
        dict_restrict_def)
  have dL: "distinct ?L" by simp
  from pr dL have
    a: "print_hca_info ?L (hca_info ?item) = map (summary_line (hca_info ?item)) (present ?L (hca_info ?item))"
    and b: "\<And>cw sep. has_widths cw (present ?L (hd (bdf_devices ?item))) \<Longrightarrow>
       print_bdf_devices ?L cw sep (bdf_devices ?item) = Inr (table_lines ?L cw sep (bdf_devices ?item))"
    unfolding L lit by simp_all
  have "map (summary_line ?info) (present ?L ?info) = [''Dev #1'', '' PN: MCX556A'', '' SN: SN123'']"
    by code_simp
  with a have ph: "print_hca_info ?L ?info = [''Dev #1'', '' PN: MCX556A'', '' SN: SN123'']" by simp
  have tl: "table_lines ?L ?cw ?sep [ex_dev_actv, ex_dev_down] =
     [''State |   PCI_addr  '', ?sep, ''actv  | 0000:01:00.0'', ''down  | 0000:01:00.1'']"
    by code_simp
  from b [of ?cw ?sep] hw
  have "print_bdf_devices ?L ?cw ?sep [ex_dev_actv, ex_dev_down] =
     Inr (table_lines ?L ?cw ?sep [ex_dev_actv, ex_dev_down])" by simp
  with tl have pb: "print_bdf_devices ?L ?cw ?sep [ex_dev_actv, ex_dev_down] =
     Inr [''State |   PCI_addr  '', ?sep, ''actv  | 0000:01:00.0'', ''down  | 0000:01:00.1'']"
    by (simp only:)
  define M where "M = map (pop_keys (keys_to_remove (?st 3) (output ?out))) (output ?out)"
  have e: "apply_select_output_filters ex_cfg ?st ?out =
     Inr (?st, ?out\<lparr>self_output_order := 3, output := M\<rparr>)"
    unfolding M_def
    by (simp add: apply_select_unfold choose_order_def ex_cfg_def ex_out_def ex_item_def ex_dev_actv_def)
  from run e have "out' = ?out\<lparr>self_output_order := 3, output := M\<rparr>" by simp
  then have "output out' = M" by simp
  with lit have "M = [?item]" by simp
  with e have r: "apply_select_output_filters ex_cfg ?st ?out =
     Inr (?st, (ex_out [?item])\<lparr>self_output_order := 3\<rparr>)"
    by (simp add: ex_out_def)
  have po: "printed_texts (print_output ex_compile ex_encode ex_cfg ?st ?out) =
     Some [?sep, str_join [CHR 0x0A] [''Dev #1'', '' PN: MCX556A'', '' SN: SN123''], ?sep,
           ''State |   PCI_addr  '', ?sep, ''actv  | 0000:01:00.0'', ''down  | 0000:01:00.1'', ?sep]"
    by code_simp
  from u pl hw r ph pb po show ?thesis by (intro conjI)
qed

text \<open>
  Claim C6, as stated: one more predicate never lets more records or adapters
  through. The predicates are put in a dictionary keyed by the field, so a
  predicate for a field that already has one replaces it. For an adapter with
  one port that is down, \<^verbatim>\<open>State=actv\<close> alone leaves nothing, and
  \<^verbatim>\<open>State=actv\<close> together with \<^verbatim>\<open>State=down\<close> leaves the adapter and its
  port.
\<close>

theorem C6_counterexample_same_field:
  "apply_where_output_filters ex_compile (ex_cfg\<lparr>where_output_filter := [''State=actv'']\<rparr>)
     (ex_out [ex_item [ex_dev_down]]) = Inr (ex_out []) \<and>
   apply_where_output_filters ex_compile
     (ex_cfg\<lparr>where_output_filter := [''State=actv'', ''State=down'']\<rparr>)
     (ex_out [ex_item [ex_dev_down]]) = Inr (ex_out [ex_item [ex_dev_down]])"
  by code_simp

text \<open>
  Claim C6, amended: when the additional predicate is for a field that no
  predicate of the list is for, and both runs of the filter return, the run
  with the additional predicate leaves at most as many adapter items and at most
  as many device records; every single application of a predicate leaves at
  most as many of both as it found; and the order in which the predicates are
  applied, which is the order of a dictionary, does not change what a run that
  returns leaves.
\<close>

theorem C6_predicates_only_remove:
  assumes r1: "apply_where_output_filters re_compile (cfg\<lparr>where_output_filter := P\<rparr>) out = Inr out1"
    and r2: "apply_where_output_filters re_compile
               (cfg\<lparr>where_output_filter := P @ [key @ ''='' @ pat]\<rparr>) out = Inr out2"
    and fresh: "\<forall>p\<in>set P. hd (split_on CHR ''='' p) \<noteq> key"
    and eq: "CHR ''='' \<notin> set key" "CHR ''='' \<notin> set pat"
  shows "length (output out2) \<le> length (output out1) \<and>
         count_devices (output out2) \<le> count_devices (output out1) \<and>
         (\<forall>rx k items r. where_key rx k items = Inr r \<longrightarrow>
            length r \<le> length items \<and> count_devices r \<le> count_devices items) \<and>
         (\<forall>c1 c2 items r1 r2. where_keys c1 items = Inr r1 \<and> where_keys c2 items = Inr r2 \<and>
            mset c1 = mset c2 \<longrightarrow> r1 = r2)"
proof -
  have perm: "\<forall>c1 c2 items r1 r2. where_keys c1 items = Inr r1 \<and> where_keys c2 items = Inr r2 \<and>
            mset c1 = mset c2 \<longrightarrow> r1 = r2"
    using where_keys_order by blast
  have step: "\<forall>rx k items r. where_key rx k items = Inr r \<longrightarrow>
            length r \<le> length items \<and> count_devices r \<le> count_devices items"
    using where_key_Inr length_where_pure count_where_pure by blast
  have sp: "split_on CHR ''='' (key @ CHR ''='' # pat) = [key, pat]"
    using eq by (simp add: split_on_one)
  have "\<exists>rx. where_key rx key (output out1) = Inr (output out2)"
  proof (cases "P = []")
    case True
    with r1 have o1: "out1 = out" by (simp add: apply_where_output_filters_def)
    from r2 True obtain rx r where "re_compile pat = Some rx" "where_key rx key (output out) = Inr r"
      "out2 = out\<lparr>output := r\<rparr>"
      by (auto simp: apply_where_output_filters_def sp split: option.splits sum.splits)
    with o1 show ?thesis by auto
  next
    case False
    with r1 obtain d1 c1 i1 where d1: "dict_of_items P [] = Inr d1"
      and c1: "compile_all re_compile d1 = Inr c1"
      and i1: "where_keys c1 (output out) = Inr i1" and o1: "out1 = out\<lparr>output := i1\<rparr>"
      by (auto simp: apply_where_output_filters_def split: sum.splits)
    have "key \<notin> set (dict_keys d1)"
    proof
      assume "key \<in> set (dict_keys d1)"
      with dict_of_items_keys [OF d1] have "key \<in> (\<lambda>p. hd (split_on CHR ''='' p)) ` set P"
        by (auto simp: dict_keys_def)
      with fresh show False by blast
    qed
    then have d2: "dict_of_items (P @ [key @ ''='' @ pat]) [] = Inr (d1 @ [(key, pat)])"
      using d1 sp by (simp add: dict_of_items_append dict_set_fresh)
    from r2 d2 obtain c2 i2 where c2: "compile_all re_compile (d1 @ [(key, pat)]) = Inr c2"
      and i2: "where_keys c2 (output out) = Inr i2" and o2: "out2 = out\<lparr>output := i2\<rparr>"
      by (auto simp: apply_where_output_filters_def split: sum.splits)
    from c2 c1 obtain rx where rx: "re_compile pat = Some rx" "c2 = c1 @ [(key, rx)]"
      by (auto simp: compile_all_append split: option.splits)
    from i2 rx(2) i1 have "where_key rx key i1 = Inr i2"
      by (simp add: where_keys_append)
    with o1 o2 show ?thesis by auto
  qed
  with step perm show ?thesis by blast
qed

theorem C6_predicates_only_remove_witness:
  "apply_where_output_filters ex_compile (ex_cfg\<lparr>where_output_filter := [''State=actv'']\<rparr>)
     (ex_out [ex_item [ex_dev_actv, ex_dev_down]]) = Inr (ex_out [ex_item [ex_dev_actv]]) \<and>
   apply_where_output_filters ex_compile
     (ex_cfg\<lparr>where_output_filter := [''State=actv''] @ [''PCI_addr'' @ ''='' @ ''0000:01:00.1'']\<rparr>)
     (ex_out [ex_item [ex_dev_actv, ex_dev_down]]) = Inr (ex_out []) \<and>
   hd (split_on CHR ''='' ''State=actv'') \<noteq> ''PCI_addr'' \<and>
   CHR ''='' \<notin> set ''PCI_addr'' \<and> CHR ''='' \<notin> set ''0000:01:00.1'' \<and>
   length (output (ex_out [])) \<le> length (output (ex_out [ex_item [ex_dev_actv]])) \<and>
   count_devices (output (ex_out [])) \<le> count_devices (output (ex_out [ex_item [ex_dev_actv]]))"
proof -
  have r1: "apply_where_output_filters ex_compile (ex_cfg\<lparr>where_output_filter := [''State=actv'']\<rparr>)
     (ex_out [ex_item [ex_dev_actv, ex_dev_down]]) = Inr (ex_out [ex_item [ex_dev_actv]])"
    by code_simp
  have r2: "apply_where_output_filters ex_compile
     (ex_cfg\<lparr>where_output_filter := [''State=actv''] @ [''PCI_addr'' @ ''='' @ ''0000:01:00.1'']\<rparr>)
     (ex_out [ex_item [ex_dev_actv, ex_dev_down]]) = Inr (ex_out [])"
    by code_simp
  have f: "hd (split_on CHR ''='' ''State=actv'') \<noteq> ''PCI_addr''"
    by code_simp
  then have fresh: "\<forall>p\<in>set [''State=actv'']. hd (split_on CHR ''='' p) \<noteq> ''PCI_addr''"
    by simp
  have e1: "CHR ''='' \<notin> set ''PCI_addr''" and e2: "CHR ''='' \<notin> set ''0000:01:00.1''" by simp_all
  from C6_predicates_only_remove [OF r1 r2 fresh e1 e2]
  have "length (output (ex_out [])) \<le> length (output (ex_out [ex_item [ex_dev_actv]])) \<and>
   count_devices (output (ex_out [])) \<le> count_devices (output (ex_out [ex_item [ex_dev_actv]]))"
    by blast
  with r1 r2 f e1 e2 show ?thesis by (intro conjI) blast+
qed

text \<open>
  Claim C7, as stated: the width of the device table is the sum of the column
  widths plus three for each of the \<open>n - 1\<close> gaps, less two. The code adds
  three for each of the \<open>n\<close> columns. For two columns of the widths 12 and 5
  and a widest summary line of 19 the separator has the length 21; the stated
  formula gives 18 for the table and so 19 for the separator.
\<close>

theorem C7_counterexample_table_width:
  "set_widths ex_cfg (ex_store 0) (ex_out [ex_item [ex_dev_actv, ex_dev_down]]) =
     Inr ((ex_out [ex_item [ex_dev_actv, ex_dev_down]])
            \<lparr>column_width := [(''PCI_addr'', 12), (''State'', 5)],
             separator_len := 21, separator := replicate 21 CHR ''-''\<rparr>) \<and>
   Max (set (0 # summary_widths [ex_item [ex_dev_actv, ex_dev_down]])) = 19 \<and>
   max ((12 + 5) + 3 * (2 - 1) - 2) (19 :: int) \<noteq> 21"
  by (simp add: set_widths_def ex_cfg_def ex_store_def ex_out_def ex_item_def ex_dev_actv_def
      ex_dev_down_def Output_init_def dict_keys_def width_of_key_def py_len_def py_str_def
      summary_widths_def Let_def)

text \<open>
  Claim C7, amended. Starting from no column width, with no \<^verbatim>\<open>None\<close> under
  a field of the order: a field has a column exactly when it is in the order and
  some device row holds it, and the width of the column is the largest of the
  length of the field name and the lengths of its values in all device rows; the
  width of the summary is the largest, over all adapters and all fields of their
  summaries, of the length of the key plus the length of the value plus 5 (0
  when there is none); and the length of the separator is the larger of that
  and the sum of the column widths plus three times the number of columns less
  two.
\<close>

theorem C7_table_widths:
  assumes empty: "column_width out = []"
    and strs: "str_rows order (device_rows (output out))"
  shows "\<exists>cw. set_widths cfg order out =
           Inr (out\<lparr>column_width := cw,
                    separator_len := max (sum_list (map snd cw) + int (length cw) * 3 - 2)
                                         (Max (set (0 # summary_widths (output out)))),
                    separator := concat (replicate
                      (nat (max (sum_list (map snd cw) + int (length cw) * 3 - 2)
                                (Max (set (0 # summary_widths (output out))))))
                      (output_separator_char cfg))\<rparr>) \<and>
         distinct (dict_keys cw) \<and>
         (\<forall>key. map_of cw key = col_width order (device_rows (output out)) key)"
proof -
  define hwv where "hwv = Max (set (0 # summary_widths (output out)))"
  from widths_of_items_ok [OF strs, of "[]" 0] obtain cw where
    s: "widths_of_items order (output out) ([], 0) = Inr (cw, fold max (summary_widths (output out)) 0)"
    and d: "distinct (dict_keys cw)"
    and m: "\<And>k. map_of cw k = fold (upd_width order k) (device_rows (output out)) None"
    by (auto simp: dict_keys_def)
  have hw: "fold max (summary_widths (output out)) 0 = hwv"
    unfolding hwv_def by (rule Max.set_eq_fold [symmetric])
  have run: "set_widths cfg order out =
           Inr (out\<lparr>column_width := cw,
                    separator_len := max (sum_list (map snd cw) + int (length cw) * 3 - 2) hwv,
                    separator := concat (replicate
                      (nat (max (sum_list (map snd cw) + int (length cw) * 3 - 2) hwv))
                      (output_separator_char cfg))\<rparr>)"
    unfolding set_widths_def empty s hw by (simp add: Let_def max_def)
  have m': "\<forall>key. map_of cw key = col_width order (device_rows (output out)) key"
    using m fold_upd_col_width [OF strs] by simp
  show ?thesis
    by (intro exI [of _ cw] conjI) (rule run [unfolded hwv_def], rule d, rule m')
qed

theorem C7_table_widths_witness:
  "column_width (ex_out [ex_item [ex_dev_actv, ex_dev_down]]) = [] \<and>
   str_rows (ex_store 0) (device_rows (output (ex_out [ex_item [ex_dev_actv, ex_dev_down]]))) \<and>
   (\<exists>cw. set_widths ex_cfg (ex_store 0) (ex_out [ex_item [ex_dev_actv, ex_dev_down]]) =
           Inr ((ex_out [ex_item [ex_dev_actv, ex_dev_down]])\<lparr>column_width := cw,
                    separator_len := max (sum_list (map snd cw) + int (length cw) * 3 - 2)
                                         (Max (set (0 # summary_widths (output (ex_out [ex_item [ex_dev_actv, ex_dev_down]]))))),
                    separator := concat (replicate
                      (nat (max (sum_list (map snd cw) + int (length cw) * 3 - 2)
                                (Max (set (0 # summary_widths (output (ex_out [ex_item [ex_dev_actv, ex_dev_down]])))))))
                      (output_separator_char ex_cfg))\<rparr>) \<and>
         distinct (dict_keys cw) \<and>
         (\<forall>key. map_of cw key = col_width (ex_store 0) (device_rows (output (ex_out [ex_item [ex_dev_actv, ex_dev_down]]))) key))"
proof -
  have h1: "column_width (ex_out [ex_item [ex_dev_actv, ex_dev_down]]) = []" by code_simp
  have h2: "str_rows (ex_store 0) (device_rows (output (ex_out [ex_item [ex_dev_actv, ex_dev_down]])))"
    by (simp add: str_rows_def device_rows_def ex_out_def ex_item_def ex_dev_actv_def ex_dev_down_def ex_store_def)
  from h1 h2 C7_table_widths [OF h1 h2, of ex_cfg] show ?thesis by (intro conjI)
qed

text \<open>
  Claim C8. With a positive list that is not empty, running the field selection
  on its own result changes nothing: the second run returns the store and the
  report items of the first, and a first run that raises is all there is.
\<close>

theorem C8_positive_selection_idempotent:
  assumes pos: "st (output_fields_filter_positive cfg) \<noteq> []"
  shows "(case apply_select_output_filters cfg st out of
            Inl e \<Rightarrow> Inl e
          | Inr (st', out') \<Rightarrow> apply_select_output_filters cfg st' out') =
         apply_select_output_filters cfg st out"
proof (cases "output out \<noteq> [] \<and> bdf_devices (hd (output out)) = []")
  case True
  then show ?thesis using pos by (simp add: apply_select_unfold choose_order_positive)
next
  case False
  let ?p = "output_fields_filter_positive cfg"
  let ?R = "keys_to_remove (st ?p) (output out)"
  let ?out' = "out\<lparr>self_output_order := ?p, output := map (pop_keys ?R) (output out)\<rparr>"
  have first: "apply_select_output_filters cfg st out = Inr (st, ?out')"
    using False pos by (simp add: apply_select_unfold choose_order_positive)
  have ok: "\<not> (output ?out' \<noteq> [] \<and> bdf_devices (hd (output ?out')) = [])"
    using False by (auto simp: hd_map_pop pop_keys_devices_empty)
  have "keys_to_remove (st ?p) (output ?out') = []"
    using keys_to_remove_pruned [of "st ?p" "output out" ?R] by simp
  then have "apply_select_output_filters cfg st ?out' = Inr (st, ?out')"
    using ok pos by (simp add: apply_select_unfold choose_order_positive pop_keys_Nil_map)
  with first show ?thesis by simp
qed

theorem C8_positive_selection_idempotent_witness:
  "(ex_store (3 := [''Dev'', ''PN'', ''SN''])) (output_fields_filter_positive ex_cfg) \<noteq> [] \<and>
   apply_select_output_filters ex_cfg (ex_store (3 := [''Dev'', ''PN'', ''SN'']))
       (ex_out [ex_item [ex_dev_actv, ex_dev_down]]) =
     Inr (ex_store (3 := [''Dev'', ''PN'', ''SN'']),
          (ex_out [restrict_item [''Dev'', ''PN'', ''SN''] (ex_item [ex_dev_actv, ex_dev_down])])
            \<lparr>self_output_order := 3\<rparr>) \<and>
   apply_select_output_filters ex_cfg (ex_store (3 := [''Dev'', ''PN'', ''SN'']))
       ((ex_out [restrict_item [''Dev'', ''PN'', ''SN''] (ex_item [ex_dev_actv, ex_dev_down])])
            \<lparr>self_output_order := 3\<rparr>) =
     Inr (ex_store (3 := [''Dev'', ''PN'', ''SN'']),
          (ex_out [restrict_item [''Dev'', ''PN'', ''SN''] (ex_item [ex_dev_actv, ex_dev_down])])
            \<lparr>self_output_order := 3\<rparr>)"
proof -
  let ?st = "ex_store (3 := [''Dev'', ''PN'', ''SN''])"
  let ?out = "ex_out [ex_item [ex_dev_actv, ex_dev_down]]"
  let ?out' = "(ex_out [restrict_item [''Dev'', ''PN'', ''SN''] (ex_item [ex_dev_actv, ex_dev_down])])
            \<lparr>self_output_order := 3\<rparr>"
  have h: "?st (output_fields_filter_positive ex_cfg) \<noteq> []" by (simp add: ex_cfg_def)
  have r: "apply_select_output_filters ex_cfg ?st ?out = Inr (?st, ?out')"
    by (simp add: apply_select_output_filters_def ex_cfg_def ex_store_def ex_out_def ex_item_def
        ex_dev_actv_def ex_dev_down_def Output_init_def restrict_item_def dict_restrict_def
        dict_keys_def dict_pop_def)
  from C8_positive_selection_idempotent [where st = "?st" and cfg = ex_cfg and out = "?out", OF h] r
  have "apply_select_output_filters ex_cfg ?st ?out' = Inr (?st, ?out')" by simp
  with h r show ?thesis by (intro conjI)
qed

text \<open>
  Claim C10. \<^verbatim>\<open>Output.__init__\<close> takes the reference to the list of the
  order from the configuration. With an empty positive list and a negative
  list that is not empty, the selection changes that one list in the store: it
  loses the first occurrence of every field of the negative list (every
  occurrence, the list being free of repetitions), and no other list changes.
  The configuration holds references and is not written to; the entry of
  \<^verbatim>\<open>output_order_general\<close> for the active view is a reference to the same
  list, and any reader of the configuration finds the shortened list there.
\<close>

theorem C10_negative_selection_mutates_config_order:
  assumes shared: "self_output_order out = output_order cfg"
    and pos: "st (output_fields_filter_positive cfg) = []"
    and neg: "output_fields_filter_negative cfg \<noteq> []"
    and run: "apply_select_output_filters cfg st out = Inr (st', out')"
  shows "self_output_order (Output_init cfg) = output_order cfg \<and>
         st' (output_order cfg) = decrement (output_fields_filter_negative cfg) (st (output_order cfg)) \<and>
         (distinct (st (output_order cfg)) \<longrightarrow>
            st' (output_order cfg) =
              filter (\<lambda>k. k \<notin> set (output_fields_filter_negative cfg)) (st (output_order cfg))) \<and>
         (\<forall>a. a \<noteq> output_order cfg \<longrightarrow> st' a = st a) \<and>
         self_output_order out' = output_order cfg"
proof -
  from run have "st' = st(output_order cfg := decrement (output_fields_filter_negative cfg) (st (output_order cfg)))"
    and "self_output_order out' = output_order cfg"
    using shared pos neg by (auto simp: apply_select_unfold choose_order_negative split: if_splits)
  then show ?thesis by (simp add: decrement_distinct Output_init_def)
qed

theorem C10_negative_selection_mutates_config_order_witness:
  "self_output_order (ex_out [ex_item [ex_dev_actv, ex_dev_down]]) =
     output_order (ex_cfg\<lparr>output_fields_filter_negative := [''SN'', ''State'']\<rparr>) \<and>
   ex_store (output_fields_filter_positive (ex_cfg\<lparr>output_fields_filter_negative := [''SN'', ''State'']\<rparr>)) = [] \<and>
   output_fields_filter_negative (ex_cfg\<lparr>output_fields_filter_negative := [''SN'', ''State'']\<rparr>) \<noteq> [] \<and>
   (\<exists>st' out'. apply_select_output_filters (ex_cfg\<lparr>output_fields_filter_negative := [''SN'', ''State'']\<rparr>)
        ex_store (ex_out [ex_item [ex_dev_actv, ex_dev_down]]) = Inr (st', out') \<and>
      st' 0 = [''Dev'', ''Desc'', ''PN'', ''FW'', ''PCI_addr'', ''RDMA'', ''Net'', ''Port'', ''Numa'',
               ''Link'', ''Rate'', ''SRIOV'', ''Parent_addr'', ''Tempr'', ''LnkCapWidth'',
               ''LnkStaWidth'', ''HCA_Type''] \<and>
      st' 1 = ex_store 1 \<and> st' 2 = ex_store 2 \<and> st' 3 = ex_store 3 \<and>
      self_output_order out' = 0) \<and>
   output_order_general ex_cfg (output_view ex_cfg) = Some (output_order ex_cfg)"
proof -
  let ?cfg = "ex_cfg\<lparr>output_fields_filter_negative := [''SN'', ''State'']\<rparr>"
  let ?out = "ex_out [ex_item [ex_dev_actv, ex_dev_down]]"
  have h1: "self_output_order ?out = output_order ?cfg" by (simp add: ex_out_def Output_init_def)
  have h2: "ex_store (output_fields_filter_positive ?cfg) = []" by (simp add: ex_cfg_def ex_store_def)
  have h3: "output_fields_filter_negative ?cfg \<noteq> []" by simp
  obtain st' out' where run: "apply_select_output_filters ?cfg ex_store ?out = Inr (st', out')"
    by (cases "apply_select_output_filters ?cfg ex_store ?out")
       (auto simp: apply_select_unfold ex_out_def ex_item_def ex_dev_actv_def Let_def split: prod.splits)
  from C10_negative_selection_mutates_config_order [OF h1 h2 h3 run]
  have a: "st' (output_order ?cfg) = decrement (output_fields_filter_negative ?cfg) (ex_store (output_order ?cfg))"
    and b: "\<forall>a. a \<noteq> output_order ?cfg \<longrightarrow> st' a = ex_store a"
    and c: "self_output_order out' = output_order ?cfg" by blast+
  have o: "output_order ?cfg = 0" by (simp add: ex_cfg_def)
  have "st' 0 = [''Dev'', ''Desc'', ''PN'', ''FW'', ''PCI_addr'', ''RDMA'', ''Net'', ''Port'', ''Numa'',
               ''Link'', ''Rate'', ''SRIOV'', ''Parent_addr'', ''Tempr'', ''LnkCapWidth'',
               ''LnkStaWidth'', ''HCA_Type'']"
    using a unfolding o by (simp add: ex_store_def)
  moreover have "st' 1 = ex_store 1" "st' 2 = ex_store 2" "st' 3 = ex_store 3"
    using b unfolding o by simp_all
  moreover have "self_output_order out' = 0" using c o by simp
  moreover have "output_order_general ex_cfg (output_view ex_cfg) = Some (output_order ex_cfg)"
    by (simp add: ex_cfg_def)
  ultimately show ?thesis using h1 h2 h3 run by blast
qed

end
